theory Spec2Isabelle
  imports Complex_Main
begin

section \<open>PMT positions of the XENON1T top and bottom arrays\<close>

text \<open>
  The development embeds the Python of \<^verbatim>\<open>examples/PMT_positions_1T.ipynb\<close>.
  Python's unbounded integers are \<^typ>\<open>int\<close>; the float64 coordinates are idealised as
  \<^typ>\<open>real\<close>, so \<open>np.cos\<close>, \<open>np.sin\<close>, \<open>np.sqrt\<close> and \<open>np.pi\<close> are the exact
  \<^const>\<open>cos\<close>, \<^const>\<open>sin\<close>, \<^const>\<open>sqrt\<close> and \<^const>\<open>pi\<close>. The code can raise two
  exceptions: the \<open>IndexError\<close> of a list read out of range, and the \<open>OverflowError\<close> of
  an integer too large to be converted to a float. A real number stands for a float
  only while the float is finite: a product that float64 would overflow to an
  infinity (an \<open>index2\<close> beyond about \<open>2.8e307\<close> in magnitude) has no counterpart in the
  model, so every statement about inputs below the valid domains bounds its input
  to the integers that float64 represents exactly.
\<close>

subsection \<open>Errors and list reads\<close>

datatype error = IndexError | OverflowError

text \<open>
  \<open>xs[i]\<close> for an index that is never negative (every index of the notebook counts up
  from \<open>0\<close> or is a difference that stays non-negative): past the end Python raises.
\<close>

definition item :: "'a list \<Rightarrow> nat \<Rightarrow> error + 'a" where
  "item xs i = (if i < length xs then Inr (xs ! i) else Inl IndexError)"

text \<open>
  The conversion Python applies to the integer operand of \<open>int * float\<close>. It rounds
  to the nearest float and raises \<open>OverflowError\<close> (\<open>int too large to convert to
  float\<close>) when the integer rounds to a magnitude of \<open>2 ^ 1024\<close>, that is from
  \<open>2 ^ 1024 - 2 ^ 970\<close> on; below that bound the model keeps the exact value.
\<close>

definition float_limit :: int where
  "float_limit = 2 ^ 1024 - 2 ^ 970"

definition float_of_int :: "int \<Rightarrow> error + real" where
  "float_of_int i = (if \<bar>i\<bar> < float_limit then Inr (real_of_int i) else Inl OverflowError)"

text \<open>Sequencing: an exception of the first computation aborts the rest.\<close>

definition bind_err :: "error + 'a \<Rightarrow> ('a \<Rightarrow> error + 'b) \<Rightarrow> error + 'b" where
  "bind_err m f = (case m of Inl e \<Rightarrow> Inl e | Inr v \<Rightarrow> f v)"

text \<open>A list comprehension \<open>[f(i) for i in xs]\<close> whose body may raise.\<close>

fun collect :: "('a \<Rightarrow> error + 'b) \<Rightarrow> 'a list \<Rightarrow> error + 'b list" where
  "collect f [] = Inr []"
| "collect f (i # is) =
     bind_err (f i) (\<lambda>v. bind_err (collect f is) (\<lambda>vs. Inr (v # vs)))"

subsection \<open>Constants taken from the XENON1T MC\<close>

definition PMT_distance_top :: real where
  "PMT_distance_top = 795 / 100"

definition PMT_distance_bottom :: real where
  "PMT_distance_bottom = 8"

definition PMTOuterRingRadius :: real where
  "PMTOuterRingRadius = 3875 / 1000"

subsection \<open>\<open>get_pmt_positions_top\<close>\<close>

text \<open>\<open>array = [i*6 for i in range(7)]; array[0] = 1\<close>\<close>

definition array_top :: "int list" where
  "array_top = (map (\<lambda>i. int i * 6) [0..<7])[0 := 1]"

text \<open>\<open>radius = [i*PMT_distance_top for i in range(7)]\<close>\<close>

definition radius :: "real list" where
  "radius = map (\<lambda>i. real i * PMT_distance_top) [0..<7]"

text \<open>
  The loop \<open>while number > iTotal: index1 += 1; iTotal += array[index1]\<close>, started by the
  caller at \<open>index1 = 0\<close>, \<open>iTotal = array[0]\<close>. It yields the final \<open>(index1, iTotal)\<close>, or the
  \<open>IndexError\<close> of \<open>array[index1]\<close> once \<open>index1\<close> has run past the list.
\<close>

function top_scan :: "int \<Rightarrow> nat \<Rightarrow> int \<Rightarrow> error + nat \<times> int" where
  "top_scan number index1 iTotal =
     (if number > iTotal then
        (if index1 + 1 < length array_top
         then top_scan number (index1 + 1) (iTotal + array_top ! (index1 + 1))
         else Inl IndexError)
      else Inr (index1, iTotal))"
  by pat_completeness auto
termination
  by (relation "measure (\<lambda>(number, index1, iTotal). length array_top - index1)") auto

declare top_scan.simps [simp del]

text \<open>
  The entries of \<open>array\<close> are the non-zero constants \<open>1, 6, \<dots>, 36\<close>, so the division by
  \<open>array[index1]\<close> never has a zero divisor. In \<open>index2*np.pi*2\<close> the integer \<open>index2\<close>
  is converted to a float, after \<open>radius[index1]\<close> has been read.
\<close>

definition get_pmt_positions_top :: "int \<Rightarrow> error + real \<times> real" where
  "get_pmt_positions_top number =
     bind_err (item array_top 0) (\<lambda>iTotal0.
     bind_err (top_scan number 0 iTotal0) (\<lambda>(index1, iTotal).
     bind_err (item array_top index1) (\<lambda>a.
     bind_err (item radius index1) (\<lambda>rad.
       let index2 = number + a - iTotal in
     bind_err (float_of_int index2) (\<lambda>f.
       let x = rad * cos (f * pi * 2 / real_of_int a);
           y = rad * sin (f * pi * 2 / real_of_int a)
       in Inr (x, y))))))"

subsection \<open>\<open>get_pmt_positions_bottom\<close>\<close>

definition row_distance :: real where
  "row_distance = sqrt 3 / 2 * PMT_distance_bottom"

definition n_rows :: nat where
  "n_rows = 13"

definition n_pmts_top :: int where
  "n_pmts_top = 127"

definition array_bottom :: "int list" where
  "array_bottom = [5, 8, 9, 10, 11, 12, 11, 12, 11, 10, 9, 8, 5]"

text \<open>
  \<open>for i in range(n_rows): PMTsRowOffset.append(-0.5*(array[i]-1)*PMT_distance_bottom)\<close>
\<close>

definition PMTsRowOffset :: "error + real list" where
  "PMTsRowOffset =
     collect (\<lambda>i. bind_err (item array_bottom i) (\<lambda>a.
                Inr (- (1 / 2) * real_of_int (a - 1) * PMT_distance_bottom)))
       [0..<n_rows]"

text \<open>
  The loop \<open>while number > n_pmts_top+iTotal: index1 += 1; iTotal += array[index1]\<close>.
\<close>

function bottom_scan :: "int \<Rightarrow> nat \<Rightarrow> int \<Rightarrow> error + nat \<times> int" where
  "bottom_scan number index1 iTotal =
     (if number > n_pmts_top + iTotal then
        (if index1 + 1 < length array_bottom
         then bottom_scan number (index1 + 1) (iTotal + array_bottom ! (index1 + 1))
         else Inl IndexError)
      else Inr (index1, iTotal))"
  by pat_completeness auto
termination
  by (relation "measure (\<lambda>(number, index1, iTotal). length array_bottom - index1)") auto

declare bottom_scan.simps [simp del]

text \<open>
  In \<open>index2 * PMT_distance_bottom\<close> the integer \<open>index2\<close> is converted to a float, after
  \<open>PMTsRowOffset[index1]\<close> has been read.
\<close>

definition get_pmt_positions_bottom :: "int \<Rightarrow> error + real \<times> real" where
  "get_pmt_positions_bottom number =
     bind_err PMTsRowOffset (\<lambda>offsets.
     bind_err (item array_bottom 0) (\<lambda>iTotal0.
     bind_err (bottom_scan number 0 iTotal0) (\<lambda>(index1, iTotal).
     bind_err (item array_bottom index1) (\<lambda>a.
     bind_err (item offsets index1) (\<lambda>off.
       let index2 = number + a - iTotal - (n_pmts_top + 1) in
     bind_err (float_of_int index2) (\<lambda>f.
       let x = off + f * PMT_distance_bottom;
           y = (1 / 2 * real (n_rows - 1) - real index1) * row_distance
       in Inr (x, y)))))))"

subsection \<open>\<open>rotate\<close>\<close>

text \<open>Named \<open>rotate_pos\<close> here: \<open>rotate\<close> is the list rotation of the library.\<close>

definition rotate_pos :: "real \<times> real \<Rightarrow> real \<Rightarrow> real \<times> real" where
  "rotate_pos pos angle =
     (fst pos * cos angle - snd pos * sin angle,
      fst pos * sin angle + snd pos * cos angle)"

subsection \<open>The assembled list\<close>

definition rotation_angle_top :: real where
  "rotation_angle_top = pi / 2 + (3 / 72) * 2 * pi"

definition rotation_angle_bottom :: real where
  "rotation_angle_bottom = pi / 8"

text \<open>
  \<open>positions_top = np.array([get_pmt_positions_top(i) for i in range(1, 128)])\<close>, then
  \<open>np.array([rotate(pos, rotation_angle_top) for pos in positions_top])\<close>.
\<close>

definition positions_top :: "error + (real \<times> real) list" where
  "positions_top =
     bind_err (collect get_pmt_positions_top [1..127]) (\<lambda>ps.
       Inr (map (\<lambda>pos. rotate_pos pos rotation_angle_top) ps))"

text \<open>The same for \<open>range(128, 121+127+1)\<close> and \<open>rotation_angle_bottom\<close>.\<close>

definition positions_bottom :: "error + (real \<times> real) list" where
  "positions_bottom =
     bind_err (collect get_pmt_positions_bottom [128..121 + 127 + 1 - 1]) (\<lambda>ps.
       Inr (map (\<lambda>pos. rotate_pos pos rotation_angle_bottom) ps))"

text \<open>An entry \<open>{'x': \<dots>, 'y': \<dots>}\<close> of \<open>pmt_locations\<close>.\<close>

record location =
  x :: real
  y :: real

text \<open>
  \<open>xs_top = positions_top[:,0]\<close>, \<open>ys_top = positions_top[:,1]\<close> (and the same for the
  bottom array), then the two loops that append to \<open>pmt_locations\<close>: the first reads
  index \<open>127-1-i\<close>, the second index \<open>i\<close>.
\<close>

definition pmt_locations :: "error + location list" where
  "pmt_locations =
     bind_err positions_top (\<lambda>pt.
     bind_err positions_bottom (\<lambda>pb.
       let xs_top = map fst pt; ys_top = map snd pt;
           xs_bottom = map fst pb; ys_bottom = map snd pb
       in
     bind_err (collect (\<lambda>i. bind_err (item xs_top (127 - 1 - i)) (\<lambda>vx.
                             bind_err (item ys_top (127 - 1 - i)) (\<lambda>vy.
                               Inr \<lparr>x = vx, y = vy\<rparr>))) [0..<127]) (\<lambda>top.
     bind_err (collect (\<lambda>i. bind_err (item xs_bottom i) (\<lambda>vx.
                             bind_err (item ys_bottom i) (\<lambda>vy.
                               Inr \<lparr>x = vx, y = vy\<rparr>))) [0..<121]) (\<lambda>bottom.
       Inr (top @ bottom)))))"

subsection \<open>Projections of the two scans\<close>

text \<open>
  The ring index \<open>index1\<close> that \<open>get_pmt_positions_top\<close> holds after its loop, and the row
  index that \<open>get_pmt_positions_bottom\<close> holds after its loop.
\<close>

definition top_ring :: "int \<Rightarrow> error + nat" where
  "top_ring number =
     bind_err (item array_top 0) (\<lambda>iTotal0.
     bind_err (top_scan number 0 iTotal0) (\<lambda>(index1, iTotal). Inr index1))"

definition bottom_row :: "int \<Rightarrow> error + nat" where
  "bottom_row number =
     bind_err (item array_bottom 0) (\<lambda>iTotal0.
     bind_err (bottom_scan number 0 iTotal0) (\<lambda>(index1, iTotal). Inr index1))"

subsection \<open>Vocabulary of the specification\<close>

text \<open>The cumulative count of the partitions \<open>0..r\<close> of a table of counts.\<close>

definition cumulative :: "int list \<Rightarrow> nat \<Rightarrow> int" where
  "cumulative cs r = sum_list (take (r + 1) cs)"

text \<open>
  The running-total scan as the specification words it: for the \<open>m\<close>-th element
  (counting from one) of the partitions laid end to end, the partition it falls in and
  its 1-based index within that partition.
\<close>

fun spec_scan :: "int list \<Rightarrow> int \<Rightarrow> nat \<times> int" where
  "spec_scan [] m = (0, m)"
| "spec_scan (c # cs) m =
     (if m \<le> c then (0, m)
      else (case spec_scan cs (m - c) of (r, k) \<Rightarrow> (Suc r, k)))"

text \<open>\<open>row_offset[r] = -0.5 * (row_count[r] - 1) * 8.0\<close>\<close>

definition row_offset :: "nat \<Rightarrow> real" where
  "row_offset r = - (1 / 2) * (real_of_int (array_bottom ! r) - 1) * 8"

text \<open>
  The bottom-array formula as the specification states it, with the 1-based index
  \<open>within\<close> (the \<open>k\<close> below):
  \<open>(row_offset[r] + within * 8.0, (0.5*(13-1) - r) * (sqrt(3)/2) * 8.0)\<close> for the row
  and index of \<open>n\<close> offset by 127.
\<close>

definition spec_locate_bottom :: "int \<Rightarrow> real \<times> real" where
  "spec_locate_bottom n =
     (case spec_scan array_bottom (n - 127) of
        (r, k) \<Rightarrow>
          (row_offset r + real_of_int k * 8,
           (1 / 2 * (13 - 1) - real r) * (sqrt 3 / 2) * 8))"

subsection \<open>Entries of the assembled list\<close>

text \<open>
  The entry the two appending loops build for the \<open>i\<close>-th top and the \<open>i\<close>-th bottom
  iteration, used to give the assembled list in closed form. \<open>projr\<close> is applied
  only to locator results that are shown to be positions.
\<close>

definition top_entry :: "nat \<Rightarrow> location" where
  "top_entry i =
     \<lparr>x = fst (rotate_pos (projr (get_pmt_positions_top (127 - int i))) rotation_angle_top),
      y = snd (rotate_pos (projr (get_pmt_positions_top (127 - int i))) rotation_angle_top)\<rparr>"

definition bottom_entry :: "nat \<Rightarrow> location" where
  "bottom_entry i =
     \<lparr>x = fst (rotate_pos (projr (get_pmt_positions_bottom (128 + int i))) rotation_angle_bottom),
      y = snd (rotate_pos (projr (get_pmt_positions_bottom (128 + int i))) rotation_angle_bottom)\<rparr>"

subsection \<open>Distances between positions\<close>

text \<open>
  Two positions are apart when they differ by more than \<open>1e-9\<close> in at least one
  coordinate; \<open>dist2\<close> and \<open>norm2\<close> are the squared Euclidean distance and norm, and
  \<open>loc_of\<close> is the list entry \<open>{'x': \<dots>, 'y': \<dots>}\<close> of a position.
\<close>

definition apart :: "real \<times> real \<Rightarrow> real \<times> real \<Rightarrow> bool" where
  "apart p q \<longleftrightarrow> \<bar>fst p - fst q\<bar> > 1 / 10 ^ 9 \<or> \<bar>snd p - snd q\<bar> > 1 / 10 ^ 9"

definition dist2 :: "real \<times> real \<Rightarrow> real \<times> real \<Rightarrow> real" where
  "dist2 p q = (fst p - fst q)\<^sup>2 + (snd p - snd q)\<^sup>2"

definition norm2 :: "real \<times> real \<Rightarrow> real" where
  "norm2 p = (fst p)\<^sup>2 + (snd p)\<^sup>2"

definition loc_of :: "real \<times> real \<Rightarrow> location" where
  "loc_of p = \<lparr>x = fst p, y = snd p\<rparr>"

section \<open>Algebra of the rotation\<close>

lemma rotate_back_fst:
  "(px * cos t - py * sin t) * cos t + (px * sin t + py * cos t) * sin t = (px::real)"
proof -
  have "(px * cos t - py * sin t) * cos t + (px * sin t + py * cos t) * sin t
        = px * (cos t * cos t + sin t * sin t)"
    by (simp only: algebra_simps)
  then show ?thesis
    by (simp only: sin_cos_squared_add3 mult_1_right)
qed

lemma rotate_back_snd:
  "(px * sin t + py * cos t) * cos t - (px * cos t - py * sin t) * sin t = (py::real)"
proof -
  have "(px * sin t + py * cos t) * cos t - (px * cos t - py * sin t) * sin t
        = py * (cos t * cos t + sin t * sin t)"
    by (simp only: algebra_simps)
  then show ?thesis
    by (simp only: sin_cos_squared_add3 mult_1_right)
qed

lemma rotated_norm:
  "(px * cos t - py * sin t)\<^sup>2 + (px * sin t + py * cos t)\<^sup>2 = px\<^sup>2 + (py::real)\<^sup>2"
proof -
  have "(px * cos t - py * sin t)\<^sup>2 + (px * sin t + py * cos t)\<^sup>2
        = (px\<^sup>2 + py\<^sup>2) * (cos t * cos t + sin t * sin t)"
    by (simp only: power2_eq_square algebra_simps)
  then show ?thesis
    by (simp only: sin_cos_squared_add3 mult_1_right)
qed

section \<open>The two scans\<close>

subsection \<open>Integers that convert to a float\<close>

lemma float_limit_large: "2 ^ 53 < float_limit"
proof -
  have "(2::int) ^ 53 < 2 ^ 970" by (rule power_strict_increasing) simp_all
  moreover have "(2::int) ^ 970 + 2 ^ 970 = 2 ^ 971" by simp
  moreover have "(2::int) ^ 971 \<le> 2 ^ 1024" by (rule power_increasing) simp_all
  ultimately show ?thesis unfolding float_limit_def by linarith
qed

lemma float_of_int_exact: "\<bar>i\<bar> \<le> 2 ^ 53 \<Longrightarrow> float_of_int i = Inr (real_of_int i)"
  using float_limit_large by (simp add: float_of_int_def)

subsection \<open>Cumulative counts\<close>

lemma array_top_eq: "array_top = [1, 6, 12, 18, 24, 30, 36]"
  by (simp add: array_top_def upt_rec)

lemma cumulative_Suc:
  "Suc r < length cs \<Longrightarrow> cumulative cs (Suc r) = cumulative cs r + cs ! Suc r"
  by (simp add: cumulative_def take_Suc_conv_app_nth)

lemma cumulative_0: "0 < length cs \<Longrightarrow> cumulative cs 0 = cs ! 0"
  by (cases cs) (simp_all add: cumulative_def)

lemma sum_list_take_mono:
  fixes cs :: "int list"
  shows "\<forall>c\<in>set cs. 0 \<le> c \<Longrightarrow> n \<le> m \<Longrightarrow> sum_list (take n cs) \<le> sum_list (take m cs)"
proof (induction cs arbitrary: n m)
  case Nil
  then show ?case by simp
next
  case (Cons c cs)
  show ?case
  proof (cases n)
    case 0
    have "\<forall>v\<in>set (take m (c # cs)). 0 \<le> v"
      using Cons.prems(1) by (meson in_set_takeD)
    then have "0 \<le> sum_list (take m (c # cs))"
      by (simp only: sum_list_nonneg)
    then show ?thesis using 0 by simp
  next
    case (Suc n')
    then obtain m' where m: "m = Suc m'" and le: "n' \<le> m'"
      using Cons.prems(2) by (cases m) simp_all
    have "sum_list (take n' cs) \<le> sum_list (take m' cs)"
      using Cons.IH [OF _ le] Cons.prems(1) by simp
    then show ?thesis using Suc m by simp
  qed
qed

lemma cumulative_mono:
  "\<forall>c\<in>set cs. 0 \<le> c \<Longrightarrow> r \<le> r' \<Longrightarrow> cumulative cs r \<le> cumulative cs r'"
  by (simp add: cumulative_def sum_list_take_mono)

lemma cum_top_6: "cumulative array_top 6 = 127"
  by (simp add: cumulative_def array_top_eq)

lemma cum_top_le: "r < length array_top \<Longrightarrow> cumulative array_top r \<le> 127"
proof -
  assume "r < length array_top"
  then have "r \<le> 6" by (simp add: array_top_eq)
  then have "cumulative array_top r \<le> cumulative array_top 6"
    by (intro cumulative_mono) (auto simp: array_top_eq)
  then show ?thesis by (simp add: cum_top_6)
qed

subsection \<open>The scan of the top array\<close>

lemma top_scan_inv:
  "index1 < length array_top \<Longrightarrow> iTotal = cumulative array_top index1 \<Longrightarrow>
   (\<forall>r'<index1. cumulative array_top r' < number) \<Longrightarrow>
   (number \<le> 127 \<longrightarrow>
      (\<exists>r. top_scan number index1 iTotal = Inr (r, cumulative array_top r) \<and>
           r < length array_top \<and> number \<le> cumulative array_top r \<and>
           (\<forall>r'<r. cumulative array_top r' < number))) \<and>
   (127 < number \<longrightarrow> top_scan number index1 iTotal = Inl IndexError)"
proof (induction number index1 iTotal rule: top_scan.induct)
  case (1 number index1 iTotal)
  show ?case
  proof (cases "number > iTotal")
    case False
    then have "top_scan number index1 iTotal = Inr (index1, iTotal)"
      by (simp add: top_scan.simps)
    moreover have "\<not> 127 < number"
      using False cum_top_le [OF "1.prems"(1)] "1.prems"(2) by simp
    ultimately show ?thesis using "1.prems" False by auto
  next
    case gt: True
    show ?thesis
    proof (cases "index1 + 1 < length array_top")
      case True
      have eq: "top_scan number index1 iTotal
                = top_scan number (index1 + 1) (iTotal + array_top ! (index1 + 1))"
        using gt True by (simp add: top_scan.simps)
      have t: "iTotal + array_top ! (index1 + 1) = cumulative array_top (index1 + 1)"
        using True "1.prems"(2) by (simp add: cumulative_Suc)
      have m: "\<forall>r'<index1 + 1. cumulative array_top r' < number"
        using "1.prems"(2,3) gt by (auto simp: less_Suc_eq)
      show ?thesis
        using "1.IH" [OF gt True True t m] by (simp only: eq)
    next
      case False
      then have "index1 = 6"
        using "1.prems"(1) by (simp add: array_top_eq)
      then have "127 < number"
        using gt "1.prems"(2) by (simp add: cum_top_6)
      moreover have "top_scan number index1 iTotal = Inl IndexError"
        using gt False by (simp add: top_scan.simps)
      ultimately show ?thesis by simp
    qed
  qed
qed

lemma length_array_top: "length array_top = 7"
  by (simp add: array_top_eq)

lemma top_scan_start:
  "(number \<le> 127 \<longrightarrow>
      (\<exists>r. top_scan number 0 1 = Inr (r, cumulative array_top r) \<and>
           r \<le> 6 \<and> number \<le> cumulative array_top r \<and>
           (\<forall>r'<r. cumulative array_top r' < number))) \<and>
   (127 < number \<longrightarrow> top_scan number 0 1 = Inl IndexError)"
proof -
  have "1 = cumulative array_top 0"
    by (simp add: cumulative_def array_top_eq)
  moreover have "0 < length array_top"
    by (simp add: length_array_top)
  ultimately have
    "(number \<le> 127 \<longrightarrow>
      (\<exists>r. top_scan number 0 1 = Inr (r, cumulative array_top r) \<and>
           r < length array_top \<and> number \<le> cumulative array_top r \<and>
           (\<forall>r'<r. cumulative array_top r' < number))) \<and>
     (127 < number \<longrightarrow> top_scan number 0 1 = Inl IndexError)"
    by (intro top_scan_inv) simp_all
  then show ?thesis
    by (simp add: length_array_top less_Suc_eq_le [symmetric] del: less_Suc_eq_le)
qed

lemma item_array_top_0: "item array_top 0 = Inr 1"
  by (simp add: item_def array_top_eq)

lemma radius_nth: "r \<le> 6 \<Longrightarrow> item radius r = Inr (real r * PMT_distance_top)"
  by (simp add: item_def radius_def)

lemma get_top_of_scan:
  assumes "top_scan number 0 1 = Inr (r, t)" and "r \<le> 6"
    and "\<bar>number + array_top ! r - t\<bar> \<le> 2 ^ 53"
  shows "get_pmt_positions_top number =
         Inr (real r * PMT_distance_top *
                cos (real_of_int (number + array_top ! r - t) * pi * 2 / real_of_int (array_top ! r)),
              real r * PMT_distance_top *
                sin (real_of_int (number + array_top ! r - t) * pi * 2 / real_of_int (array_top ! r)))"
proof -
  have "item array_top r = Inr (array_top ! r)"
    using assms(2) by (simp add: item_def length_array_top)
  moreover have "float_of_int (number + array_top ! r - t)
                 = Inr (real_of_int (number + array_top ! r - t))"
    using assms(3) by (rule float_of_int_exact)
  ultimately show ?thesis
    using assms(1,2)
    by (simp add: get_pmt_positions_top_def item_array_top_0 bind_err_def radius_nth Let_def)
qed

lemma get_top_overflow: "127 < number \<Longrightarrow> get_pmt_positions_top number = Inl IndexError"
  using top_scan_start [of number]
  by (simp add: get_pmt_positions_top_def item_array_top_0 bind_err_def)

lemma polar_norm: "0 \<le> R \<Longrightarrow> sqrt ((R * cos a)\<^sup>2 + (R * sin a)\<^sup>2) = R"
proof -
  assume "0 \<le> R"
  have "(R * cos a)\<^sup>2 + (R * sin a)\<^sup>2 = R\<^sup>2 * ((cos a)\<^sup>2 + (sin a)\<^sup>2)"
    by (simp only: power_mult_distrib distrib_left)
  then have "(R * cos a)\<^sup>2 + (R * sin a)\<^sup>2 = R\<^sup>2"
    by (simp only: sin_cos_squared_add2 mult_1_right)
  then show ?thesis using \<open>0 \<le> R\<close> by simp
qed


subsection \<open>The scan of the bottom array\<close>

lemma collect_total:
  "(\<And>i. i \<in> set is \<Longrightarrow> f i = Inr (g i)) \<Longrightarrow> collect f is = Inr (map g is)"
  by (induction "is") (simp_all add: bind_err_def)

lemma length_array_bottom: "length array_bottom = 13"
  by (simp add: array_bottom_def)

lemma cum_bottom_12: "cumulative array_bottom 12 = 121"
  by (simp add: cumulative_def array_bottom_def)

lemma cum_bottom_le: "r < length array_bottom \<Longrightarrow> cumulative array_bottom r \<le> 121"
proof -
  assume "r < length array_bottom"
  then have "r \<le> 12" by (simp add: length_array_bottom)
  then have "cumulative array_bottom r \<le> cumulative array_bottom 12"
    by (intro cumulative_mono) (auto simp: array_bottom_def)
  then show ?thesis by (simp add: cum_bottom_12)
qed

lemma bottom_scan_inv:
  "index1 < length array_bottom \<Longrightarrow> iTotal = cumulative array_bottom index1 \<Longrightarrow>
   (\<forall>r'<index1. cumulative array_bottom r' < number - 127) \<Longrightarrow>
   (number \<le> 248 \<longrightarrow>
      (\<exists>r. bottom_scan number index1 iTotal = Inr (r, cumulative array_bottom r) \<and>
           r < length array_bottom \<and> number - 127 \<le> cumulative array_bottom r \<and>
           (\<forall>r'<r. cumulative array_bottom r' < number - 127))) \<and>
   (248 < number \<longrightarrow> bottom_scan number index1 iTotal = Inl IndexError)"
proof (induction number index1 iTotal rule: bottom_scan.induct)
  case (1 number index1 iTotal)
  show ?case
  proof (cases "number > n_pmts_top + iTotal")
    case False
    then have "bottom_scan number index1 iTotal = Inr (index1, iTotal)"
      by (simp add: bottom_scan.simps)
    moreover have "\<not> 248 < number"
      using False cum_bottom_le [OF "1.prems"(1)] "1.prems"(2) by (simp add: n_pmts_top_def)
    ultimately show ?thesis using "1.prems" False by (auto simp: n_pmts_top_def)
  next
    case gt: True
    show ?thesis
    proof (cases "index1 + 1 < length array_bottom")
      case True
      have eq: "bottom_scan number index1 iTotal
                = bottom_scan number (index1 + 1) (iTotal + array_bottom ! (index1 + 1))"
        using gt True by (simp add: bottom_scan.simps)
      have t: "iTotal + array_bottom ! (index1 + 1) = cumulative array_bottom (index1 + 1)"
        using True "1.prems"(2) by (simp add: cumulative_Suc)
      have m: "\<forall>r'<index1 + 1. cumulative array_bottom r' < number - 127"
        using "1.prems"(2,3) gt by (auto simp: less_Suc_eq n_pmts_top_def)
      show ?thesis
        using "1.IH" [OF gt True True t m] by (simp only: eq)
    next
      case False
      then have "index1 = 12"
        using "1.prems"(1) by (simp add: length_array_bottom)
      then have "248 < number"
        using gt "1.prems"(2) by (simp add: cum_bottom_12 n_pmts_top_def)
      moreover have "bottom_scan number index1 iTotal = Inl IndexError"
        using gt False by (simp add: bottom_scan.simps)
      ultimately show ?thesis by simp
    qed
  qed
qed

lemma bottom_scan_start:
  "(number \<le> 248 \<longrightarrow>
      (\<exists>r. bottom_scan number 0 5 = Inr (r, cumulative array_bottom r) \<and>
           r \<le> 12 \<and> number - 127 \<le> cumulative array_bottom r \<and>
           (\<forall>r'<r. cumulative array_bottom r' < number - 127))) \<and>
   (248 < number \<longrightarrow> bottom_scan number 0 5 = Inl IndexError)"
proof -
  have "5 = cumulative array_bottom 0"
    by (simp add: cumulative_def array_bottom_def)
  moreover have "0 < length array_bottom"
    by (simp add: length_array_bottom)
  ultimately have
    "(number \<le> 248 \<longrightarrow>
      (\<exists>r. bottom_scan number 0 5 = Inr (r, cumulative array_bottom r) \<and>
           r < length array_bottom \<and> number - 127 \<le> cumulative array_bottom r \<and>
           (\<forall>r'<r. cumulative array_bottom r' < number - 127))) \<and>
     (248 < number \<longrightarrow> bottom_scan number 0 5 = Inl IndexError)"
    by (intro bottom_scan_inv) simp_all
  then show ?thesis
    by (simp add: length_array_bottom less_Suc_eq_le [symmetric] del: less_Suc_eq_le)
qed

lemma item_array_bottom_0: "item array_bottom 0 = Inr 5"
  by (simp add: item_def array_bottom_def)

lemma PMTsRowOffset_eq:
  "PMTsRowOffset =
   Inr (map (\<lambda>i. - (1 / 2) * real_of_int (array_bottom ! i - 1) * PMT_distance_bottom) [0..<13])"
  unfolding PMTsRowOffset_def n_rows_def
  by (rule collect_total) (simp add: item_def length_array_bottom bind_err_def)

lemma get_bottom_of_scan:
  assumes "bottom_scan number 0 5 = Inr (r, t)" and "r \<le> 12"
    and "\<bar>number + array_bottom ! r - t - 128\<bar> \<le> 2 ^ 53"
  shows "get_pmt_positions_bottom number =
         Inr (- (1 / 2) * real_of_int (array_bottom ! r - 1) * 8
                + real_of_int (number + array_bottom ! r - t - 128) * 8,
              (6 - real r) * (sqrt 3 / 2 * 8))"
proof -
  have "item array_bottom r = Inr (array_bottom ! r)"
    using assms(2) by (simp add: item_def length_array_bottom)
  moreover have "item (map (\<lambda>i. - (1 / 2) * real_of_int (array_bottom ! i - 1) * PMT_distance_bottom) [0..<13]) r
    = Inr (- (1 / 2) * real_of_int (array_bottom ! r - 1) * PMT_distance_bottom)"
    using assms(2) by (simp add: item_def)
  moreover have "float_of_int (number + array_bottom ! r - t - 128)
                 = Inr (real_of_int (number + array_bottom ! r - t - 128))"
    using assms(3) by (rule float_of_int_exact)
  ultimately show ?thesis
    using assms(1)
    by (simp add: get_pmt_positions_bottom_def PMTsRowOffset_eq item_array_bottom_0 bind_err_def
        Let_def n_pmts_top_def n_rows_def row_distance_def PMT_distance_bottom_def)
qed

lemma get_bottom_overflow: "248 < number \<Longrightarrow> get_pmt_positions_bottom number = Inl IndexError"
  using bottom_scan_start [of number]
  by (simp add: get_pmt_positions_bottom_def PMTsRowOffset_eq item_array_bottom_0 bind_err_def)

subsection \<open>Positions on and off the valid domains\<close>

lemma array_bottom_bounds: "r \<le> 12 \<Longrightarrow> 5 \<le> array_bottom ! r \<and> array_bottom ! r \<le> 12"
proof -
  assume "r \<le> 12"
  then have "array_bottom ! r \<in> set array_bottom"
    by (simp add: length_array_bottom)
  then show ?thesis by (auto simp: array_bottom_def)
qed

lemma array_top_bounds: "r \<le> 6 \<Longrightarrow> 1 \<le> array_top ! r \<and> array_top ! r \<le> 36"
proof -
  assume "r \<le> 6"
  then have "array_top ! r \<in> set array_top"
    by (simp add: length_array_top)
  then show ?thesis by (auto simp: array_top_eq)
qed

lemma cumulative_before:
  "r < length cs \<Longrightarrow>
   cumulative cs r - cs ! r = (if r = 0 then 0 else cumulative cs (r - 1))"
  by (cases r) (simp_all add: cumulative_0 cumulative_Suc)

lemma top_index_small:
  assumes "r \<le> 6" and "number \<le> cumulative array_top r" and "- (2 ^ 52) \<le> number"
  shows "\<bar>number + array_top ! r - cumulative array_top r\<bar> \<le> 2 ^ 53"
proof -
  have "1 \<le> array_top ! r" "array_top ! r \<le> 36"
    using array_top_bounds [OF assms(1)] by simp_all
  moreover have "cumulative array_top r \<le> 127"
    using assms(1) by (intro cum_top_le) (simp add: length_array_top)
  ultimately show ?thesis using assms(2,3) by simp
qed

lemma bottom_index_small:
  assumes "r \<le> 12" and "number - 127 \<le> cumulative array_bottom r"
    and "- (2 ^ 52) \<le> number"
  shows "\<bar>number + array_bottom ! r - cumulative array_bottom r - 128\<bar> \<le> 2 ^ 53"
proof -
  have "5 \<le> array_bottom ! r" "array_bottom ! r \<le> 12"
    using array_bottom_bounds [OF assms(1)] by simp_all
  moreover have "cumulative array_bottom r \<le> 121"
    using assms(1) by (intro cum_bottom_le) (simp add: length_array_bottom)
  ultimately show ?thesis using assms(2,3) by simp
qed

lemma get_top_valid:
  assumes "number \<le> 127" and "- (2 ^ 52) \<le> number"
  shows "\<exists>r. r \<le> 6 \<and> number \<le> cumulative array_top r \<and>
             (\<forall>r'<r. cumulative array_top r' < number) \<and>
             top_ring number = Inr r \<and>
             get_pmt_positions_top number =
               Inr (real r * PMT_distance_top *
                      cos (real_of_int (number + array_top ! r - cumulative array_top r) * pi * 2
                           / real_of_int (array_top ! r)),
                    real r * PMT_distance_top *
                      sin (real_of_int (number + array_top ! r - cumulative array_top r) * pi * 2
                           / real_of_int (array_top ! r)))"
proof -
  obtain r where scan: "top_scan number 0 1 = Inr (r, cumulative array_top r)"
    and r: "r \<le> 6" and le: "number \<le> cumulative array_top r"
    and least: "\<forall>r'<r. cumulative array_top r' < number"
    using top_scan_start [of number] assms by blast
  have "top_ring number = Inr r"
    using scan by (simp add: top_ring_def item_array_top_0 bind_err_def)
  then show ?thesis
    using get_top_of_scan [OF scan r top_index_small [OF r le assms(2)]] r le least by blast
qed

lemma get_bottom_valid:
  assumes "number \<le> 248" and "- (2 ^ 52) \<le> number"
  shows "\<exists>r. r \<le> 12 \<and> number - 127 \<le> cumulative array_bottom r \<and>
             (\<forall>r'<r. cumulative array_bottom r' < number - 127) \<and>
             bottom_row number = Inr r \<and>
             get_pmt_positions_bottom number =
               Inr (row_offset r
                      + real_of_int (number + array_bottom ! r - cumulative array_bottom r - 128) * 8,
                    (6 - real r) * (sqrt 3 / 2 * 8))"
proof -
  obtain r where scan: "bottom_scan number 0 5 = Inr (r, cumulative array_bottom r)"
    and r: "r \<le> 12" and le: "number - 127 \<le> cumulative array_bottom r"
    and least: "\<forall>r'<r. cumulative array_bottom r' < number - 127"
    using bottom_scan_start [of number] assms by blast
  have "bottom_row number = Inr r"
    using scan by (simp add: bottom_row_def item_array_bottom_0 bind_err_def)
  then show ?thesis
    using get_bottom_of_scan [OF scan r bottom_index_small [OF r le assms(2)]] r le least
    by (auto simp: row_offset_def)
qed

lemma cum_top_0: "cumulative array_top 0 = 1"
  by (simp add: cumulative_def array_top_eq)

lemma cum_bottom_0: "cumulative array_bottom 0 = 5"
  by (simp add: cumulative_def array_bottom_def)

lemma get_top_underflow:
  assumes "number \<le> 0" and "- (2 ^ 52) \<le> number"
  shows "get_pmt_positions_top number = Inr (0, 0)"
proof -
  obtain r where least: "\<forall>r'<r. cumulative array_top r' < number"
    and pos: "get_pmt_positions_top number =
               Inr (real r * PMT_distance_top *
                      cos (real_of_int (number + array_top ! r - cumulative array_top r) * pi * 2
                           / real_of_int (array_top ! r)),
                    real r * PMT_distance_top *
                      sin (real_of_int (number + array_top ! r - cumulative array_top r) * pi * 2
                           / real_of_int (array_top ! r)))"
    using get_top_valid [OF _ assms(2)] assms(1) by auto
  have "r = 0"
  proof (rule ccontr)
    assume "r \<noteq> 0"
    then have "cumulative array_top 0 < number" using least by simp
    then show False using assms by (simp add: cum_top_0)
  qed
  then show ?thesis using pos by simp
qed

lemma get_bottom_underflow:
  assumes "number \<le> 132" and "- (2 ^ 52) \<le> number"
  shows "get_pmt_positions_bottom number
         = Inr (- 16 + real_of_int (number - 128) * 8, 6 * (sqrt 3 / 2 * 8))"
proof -
  obtain r where least: "\<forall>r'<r. cumulative array_bottom r' < number - 127"
    and pos: "get_pmt_positions_bottom number =
               Inr (row_offset r
                      + real_of_int (number + array_bottom ! r - cumulative array_bottom r - 128) * 8,
                    (6 - real r) * (sqrt 3 / 2 * 8))"
    using get_bottom_valid [OF _ assms(2)] assms(1) by auto
  have "r = 0"
  proof (rule ccontr)
    assume "r \<noteq> 0"
    then have "cumulative array_bottom 0 < number - 127" using least by simp
    then show False using assms by (simp add: cum_bottom_0)
  qed
  moreover have "array_bottom ! 0 = 5" by (simp add: array_bottom_def)
  ultimately show ?thesis using pos by (simp add: cum_bottom_0 row_offset_def)
qed

text \<open>
  Far below the domains the conversion of \<open>index2\<close> to a float is what fails.
\<close>

lemma get_top_too_large:
  assumes "number \<le> - float_limit"
  shows "get_pmt_positions_top number = Inl OverflowError"
proof -
  have neg: "number \<le> 0" using assms float_limit_large by simp
  then have "top_scan number 0 1 = Inr (0, 1)"
    by (simp add: top_scan.simps)
  moreover have "item array_top 0 = Inr 1" "item radius 0 = Inr 0"
    by (simp_all add: item_def array_top_eq radius_def)
  moreover have "float_of_int number = Inl OverflowError"
    using assms neg by (simp add: float_of_int_def)
  ultimately show ?thesis
    by (simp add: get_pmt_positions_top_def bind_err_def)
qed

lemma get_bottom_too_large:
  assumes "number \<le> 128 - float_limit"
  shows "get_pmt_positions_bottom number = Inl OverflowError"
proof -
  have neg: "number \<le> 128" using assms float_limit_large by simp
  then have "bottom_scan number 0 5 = Inr (0, 5)"
    by (simp add: bottom_scan.simps n_pmts_top_def)
  moreover have "item array_bottom 0 = Inr 5"
    by (simp add: item_def array_bottom_def)
  moreover have "item (map (\<lambda>i. - (1 / 2) * real_of_int (array_bottom ! i - 1) * PMT_distance_bottom)
                         [0..<13]) 0
                 = Inr (- (1 / 2) * real_of_int (array_bottom ! 0 - 1) * PMT_distance_bottom)"
    by (simp add: item_def)
  moreover have "float_of_int (number - 128) = Inl OverflowError"
    using assms neg by (simp add: float_of_int_def)
  ultimately show ?thesis
    by (simp add: get_pmt_positions_bottom_def PMTsRowOffset_eq bind_err_def n_pmts_top_def)
qed

lemma top_index_range:
  assumes "r \<le> 6" "1 \<le> n" "n \<le> cumulative array_top r"
    "\<forall>r'<r. cumulative array_top r' < n"
  shows "1 \<le> n + array_top ! r - cumulative array_top r"
    and "n + array_top ! r - cumulative array_top r \<le> array_top ! r"
proof -
  have "r < length array_top" using assms(1) by (simp add: length_array_top)
  then have b: "cumulative array_top r - array_top ! r
                = (if r = 0 then 0 else cumulative array_top (r - 1))"
    by (rule cumulative_before)
  have "cumulative array_top r - array_top ! r < n"
  proof (cases "r = 0")
    case True
    then show ?thesis using b assms(2) by simp
  next
    case False
    then have "cumulative array_top (r - 1) < n" using assms(4) by simp
    then show ?thesis using b False by simp
  qed
  then show "1 \<le> n + array_top ! r - cumulative array_top r" by simp
  show "n + array_top ! r - cumulative array_top r \<le> array_top ! r"
    using assms(3) by simp
qed

lemma bottom_index_range:
  assumes "r \<le> 12" "128 \<le> n" "n - 127 \<le> cumulative array_bottom r"
    "\<forall>r'<r. cumulative array_bottom r' < n - 127"
  shows "0 \<le> n + array_bottom ! r - cumulative array_bottom r - 128"
    and "n + array_bottom ! r - cumulative array_bottom r - 128 < array_bottom ! r"
proof -
  have "r < length array_bottom" using assms(1) by (simp add: length_array_bottom)
  then have b: "cumulative array_bottom r - array_bottom ! r
                = (if r = 0 then 0 else cumulative array_bottom (r - 1))"
    by (rule cumulative_before)
  have "cumulative array_bottom r - array_bottom ! r < n - 127"
  proof (cases "r = 0")
    case True
    then show ?thesis using b assms(2) by simp
  next
    case False
    then have "cumulative array_bottom (r - 1) < n - 127" using assms(4) by simp
    then show ?thesis using b False by simp
  qed
  then show "0 \<le> n + array_bottom ! r - cumulative array_bottom r - 128" by simp
  show "n + array_bottom ! r - cumulative array_bottom r - 128 < array_bottom ! r"
    using assms(3) by simp
qed

lemma sqrt3_le: "sqrt 3 \<le> 7 / 4"
  by (rule real_le_lsqrt) (simp_all add: power2_eq_square)

lemma least_unique:
  assumes "n \<le> cumulative cs r" "\<forall>r'<r. cumulative cs r' < n"
    "n \<le> cumulative cs k" "\<forall>r'<k. cumulative cs r' < n"
  shows "r = k"
proof (rule ccontr)
  assume "r \<noteq> k"
  then consider "r < k" | "k < r" by linarith
  then show False
  proof cases
    case 1
    then show ?thesis using assms(1,4) by force
  next
    case 2
    then show ?thesis using assms(2,3) by force
  qed
qed

lemma row_offset_alt: "row_offset r = 4 - 4 * real_of_int (array_bottom ! r)"
  by (simp add: row_offset_def field_simps)

lemma top_norm_of_scan:
  assumes "top_scan number 0 1 = Inr (r, t)" and "r \<le> 6"
    and "\<bar>number + array_top ! r - t\<bar> \<le> 2 ^ 53"
  shows "\<exists>px py. get_pmt_positions_top number = Inr (px, py) \<and>
                 sqrt (px\<^sup>2 + py\<^sup>2) = real r * (795 / 100)"
proof -
  have "0 \<le> real r * PMT_distance_top"
    by (simp add: PMT_distance_top_def)
  then have "sqrt ((real r * PMT_distance_top * cos a)\<^sup>2 + (real r * PMT_distance_top * sin a)\<^sup>2)
             = real r * (795 / 100)" for a
    by (simp only: polar_norm PMT_distance_top_def)
  then show ?thesis
    using get_top_of_scan [OF assms] by blast
qed

subsection \<open>The scan in the words of the specification\<close>

lemma cumulative_Cons_0: "cumulative (c # cs) 0 = c"
  by (simp add: cumulative_def)

lemma cumulative_Cons_Suc: "cumulative (c # cs) (Suc r) = c + cumulative cs r"
  by (simp add: cumulative_def)

lemma spec_scan_least:
  "r < length cs \<Longrightarrow> m \<le> cumulative cs r \<Longrightarrow> \<forall>r'<r. cumulative cs r' < m \<Longrightarrow>
   spec_scan cs m = (r, m - (cumulative cs r - cs ! r))"
proof (induction cs arbitrary: m r)
  case Nil
  then show ?case by simp
next
  case (Cons c cs)
  show ?case
  proof (cases "m \<le> c")
    case True
    have "r = 0"
    proof (rule ccontr)
      assume "r \<noteq> 0"
      then have "cumulative (c # cs) 0 < m" using Cons.prems(3) by simp
      then show False using True by (simp add: cumulative_Cons_0)
    qed
    then show ?thesis using True by (simp add: cumulative_Cons_0)
  next
    case False
    have "r \<noteq> 0"
    proof
      assume "r = 0"
      then have "m \<le> c" using Cons.prems(2) by (simp add: cumulative_Cons_0)
      then show False using False by simp
    qed
    then obtain q where q: "r = Suc q" by (cases r) simp_all
    have 1: "q < length cs" using Cons.prems(1) q by simp
    have 2: "m - c \<le> cumulative cs q"
      using Cons.prems(2) q by (simp add: cumulative_Cons_Suc)
    have 3: "\<forall>r'<q. cumulative cs r' < m - c"
    proof (intro allI impI)
      fix r' assume "r' < q"
      then have "cumulative (c # cs) (Suc r') < m"
        using Cons.prems(3) q by simp
      then show "cumulative cs r' < m - c"
        by (simp add: cumulative_Cons_Suc)
    qed
    have "spec_scan cs (m - c) = (q, m - c - (cumulative cs q - cs ! q))"
      by (rule Cons.IH [OF 1 2 3])
    then show ?thesis
      using False q by (simp add: cumulative_Cons_Suc)
  qed
qed

subsection \<open>Members of a row\<close>

lemma cum_bottom_before_nonneg:
  assumes "r \<le> 12"
  shows "0 \<le> cumulative array_bottom r - array_bottom ! r"
proof -
  have len: "r < length array_bottom" using assms by (simp add: length_array_bottom)
  show ?thesis
  proof (cases "r = 0")
    case True
    then show ?thesis using cumulative_before [OF len] by simp
  next
    case False
    have "cumulative array_bottom 0 \<le> cumulative array_bottom (r - 1)"
      by (rule cumulative_mono) (auto simp: array_bottom_def)
    then show ?thesis using cumulative_before [OF len] False by (simp add: cum_bottom_0)
  qed
qed

lemma cum_bottom_before_least:
  assumes "r \<le> 12" and "r' < r"
  shows "cumulative array_bottom r' \<le> cumulative array_bottom r - array_bottom ! r"
proof -
  have len: "r < length array_bottom" using assms by (simp add: length_array_bottom)
  have "r \<noteq> 0" using assms(2) by simp
  then have "cumulative array_bottom r - array_bottom ! r = cumulative array_bottom (r - 1)"
    using cumulative_before [OF len] by simp
  moreover have "cumulative array_bottom r' \<le> cumulative array_bottom (r - 1)"
    using assms(2) by (intro cumulative_mono) (auto simp: array_bottom_def)
  ultimately show ?thesis by simp
qed

lemma bottom_row_member:
  assumes r: "r \<le> 12" and k: "0 \<le> k" "k < array_bottom ! r"
  shows "\<exists>n py. 128 \<le> n \<and> n \<le> 248 \<and> bottom_row n = Inr r \<and>
                get_pmt_positions_bottom n = Inr (row_offset r + real_of_int k * 8, py)"
proof -
  define n where "n = 128 + (cumulative array_bottom r - array_bottom ! r) + k"
  have len: "r < length array_bottom" using r by (simp add: length_array_bottom)
  have lo: "128 \<le> n"
    using cum_bottom_before_nonneg [OF r] k(1) by (simp add: n_def)
  have le: "n - 127 \<le> cumulative array_bottom r"
    using k(2) by (simp add: n_def)
  then have hi: "n \<le> 248"
    using cum_bottom_le [OF len] by simp
  have least: "\<forall>r'<r. cumulative array_bottom r' < n - 127"
  proof (intro allI impI)
    fix r' assume "r' < r"
    then have "cumulative array_bottom r' \<le> cumulative array_bottom r - array_bottom ! r"
      by (rule cum_bottom_before_least [OF r])
    then show "cumulative array_bottom r' < n - 127"
      using k(1) unfolding n_def by linarith
  qed
  obtain q where q: "n - 127 \<le> cumulative array_bottom q"
    "\<forall>r'<q. cumulative array_bottom r' < n - 127" "bottom_row n = Inr q"
    and pos: "get_pmt_positions_bottom n =
               Inr (row_offset q
                      + real_of_int (n + array_bottom ! q - cumulative array_bottom q - 128) * 8,
                    (6 - real q) * (sqrt 3 / 2 * 8))"
    using get_bottom_valid [OF hi] lo by force
  have qr: "q = r"
    using q(1,2) le least by (rule least_unique)
  have "n + array_bottom ! r - cumulative array_bottom r - 128 = k"
    by (simp add: n_def)
  then have "get_pmt_positions_bottom n
             = Inr (row_offset r + real_of_int k * 8, (6 - real r) * (sqrt 3 / 2 * 8))"
    using pos qr by simp
  then show ?thesis
    using lo hi q(3) qr by blast
qed

lemma bottom_row_position:
  assumes "128 \<le> n" "n \<le> 248" "bottom_row n = Inr r"
    "get_pmt_positions_bottom n = Inr (px, py)"
  shows "\<exists>k. k < nat (array_bottom ! r) \<and> px = row_offset r + real k * 8"
proof -
  obtain q where q: "q \<le> 12" "n - 127 \<le> cumulative array_bottom q"
    "\<forall>r'<q. cumulative array_bottom r' < n - 127" "bottom_row n = Inr q"
    and pos: "get_pmt_positions_bottom n =
               Inr (row_offset q
                      + real_of_int (n + array_bottom ! q - cumulative array_bottom q - 128) * 8,
                    (6 - real q) * (sqrt 3 / 2 * 8))"
    using get_bottom_valid [OF assms(2)] assms(1) by force
  have qr: "q = r" using q(4) assms(3) by simp
  define k where "k = n + array_bottom ! r - cumulative array_bottom r - 128"
  have k: "0 \<le> k" "k < array_bottom ! r"
    using bottom_index_range [OF q(1) assms(1) q(2,3)] by (simp_all add: k_def qr)
  have "px = row_offset r + real_of_int k * 8"
    using pos assms(4) by (simp add: qr k_def)
  then have "px = row_offset r + real (nat k) * 8"
    using k(1) by simp
  moreover have "nat k < nat (array_bottom ! r)"
    using k by simp
  ultimately show ?thesis by blast
qed

subsection \<open>The assembled list in closed form\<close>

lemma get_top_total:
  assumes "1 \<le> n" and "n \<le> 127"
  shows "get_pmt_positions_top n = Inr (projr (get_pmt_positions_top n))"
proof -
  have "- (2 ^ 52) \<le> n" using assms(1) by simp
  then show ?thesis
    using get_top_valid [OF assms(2)] by auto
qed

lemma get_bottom_total:
  assumes "128 \<le> n" and "n \<le> 248"
  shows "get_pmt_positions_bottom n = Inr (projr (get_pmt_positions_bottom n))"
proof -
  have "- (2 ^ 52) \<le> n" using assms(1) by simp
  then show ?thesis
    using get_bottom_valid [OF assms(2)] by auto
qed

lemma collect_upto:
  "(\<And>n. lo \<le> n \<Longrightarrow> n \<le> hi \<Longrightarrow> f n = Inr (g n)) \<Longrightarrow>
   collect f [lo..hi] = Inr (map g [lo..hi])"
  by (rule collect_total) simp

lemma bind_err_Inr: "bind_err (Inr v) f = f v"
  by (simp add: bind_err_def)

lemma positions_top_eq:
  "positions_top =
   Inr (map (\<lambda>n. rotate_pos (projr (get_pmt_positions_top n)) rotation_angle_top) [1..127])"
proof -
  have "collect get_pmt_positions_top [1..127]
        = Inr (map (\<lambda>n. projr (get_pmt_positions_top n)) [1..127])"
    by (rule collect_upto) (rule get_top_total)
  then show ?thesis
    by (simp only: positions_top_def bind_err_Inr map_map comp_def)
qed

lemma positions_bottom_eq:
  "positions_bottom =
   Inr (map (\<lambda>n. rotate_pos (projr (get_pmt_positions_bottom n)) rotation_angle_bottom) [128..248])"
proof -
  have n: "(121 + 127 + 1 - 1 :: int) = 248" by simp
  have "collect get_pmt_positions_bottom [128..248]
        = Inr (map (\<lambda>n. projr (get_pmt_positions_bottom n)) [128..248])"
    by (rule collect_upto) (rule get_bottom_total)
  then show ?thesis
    by (simp only: positions_bottom_def n bind_err_Inr map_map comp_def)
qed

lemma length_map_upto: "lo \<le> hi + 1 \<Longrightarrow> length (map f [lo..hi]) = nat (hi - lo + 1)"
  by simp

lemma nth_map_upto: "int k \<le> hi - lo \<Longrightarrow> map f [lo..hi] ! k = f (lo + int k)"
  by simp

lemma entry_of_columns:
  "k < length ps \<Longrightarrow>
   bind_err (item (map fst ps) k) (\<lambda>vx.
     bind_err (item (map snd ps) k) (\<lambda>vy. Inr \<lparr>x = vx, y = vy\<rparr>))
   = Inr \<lparr>x = fst (ps ! k), y = snd (ps ! k)\<rparr>"
  by (simp add: item_def bind_err_def)

lemma pmt_locations_eq:
  "pmt_locations = Inr (map top_entry [0..<127] @ map bottom_entry [0..<121])"
proof -
  define pt where
    "pt = map (\<lambda>n. rotate_pos (projr (get_pmt_positions_top n)) rotation_angle_top) [1..127]"
  define pb where
    "pb = map (\<lambda>n. rotate_pos (projr (get_pmt_positions_bottom n)) rotation_angle_bottom)
            [128..248]"
  have len_pt: "length pt = 127"
    unfolding pt_def by (subst length_map_upto) simp_all
  have len_pb: "length pb = 121"
    unfolding pb_def by (subst length_map_upto) simp_all
  have nth_pt: "pt ! k = rotate_pos (projr (get_pmt_positions_top (1 + int k))) rotation_angle_top"
    if "k < 127" for k
    unfolding pt_def using that by (subst nth_map_upto) simp_all
  have nth_pb: "pb ! k = rotate_pos (projr (get_pmt_positions_bottom (128 + int k))) rotation_angle_bottom"
    if "k < 121" for k
    unfolding pb_def using that by (subst nth_map_upto) simp_all
  have top: "collect (\<lambda>i. bind_err (item (map fst pt) (127 - 1 - i)) (\<lambda>vx.
                          bind_err (item (map snd pt) (127 - 1 - i)) (\<lambda>vy.
                            Inr \<lparr>x = vx, y = vy\<rparr>))) [0..<127]
             = Inr (map top_entry [0..<127])"
  proof (rule collect_total)
    fix i assume "i \<in> set [0..<127]"
    then have i: "i < 127" by simp
    then have k: "127 - 1 - i < length pt" "127 - 1 - i < 127"
      by (simp_all add: len_pt)
    have "1 + int (127 - 1 - i) = 127 - int i" using i by simp
    then have "pt ! (127 - 1 - i) 
       = rotate_pos (projr (get_pmt_positions_top (127 - int i))) rotation_angle_top"
      using nth_pt [OF k(2)] by simp
    then show "bind_err (item (map fst pt) (127 - 1 - i)) (\<lambda>vx.
                 bind_err (item (map snd pt) (127 - 1 - i)) (\<lambda>vy. Inr \<lparr>x = vx, y = vy\<rparr>))
               = Inr (top_entry i)"
      by (simp only: entry_of_columns [OF k(1)] top_entry_def)
  qed
  have bottom: "collect (\<lambda>i. bind_err (item (map fst pb) i) (\<lambda>vx.
                          bind_err (item (map snd pb) i) (\<lambda>vy.
                            Inr \<lparr>x = vx, y = vy\<rparr>))) [0..<121]
             = Inr (map bottom_entry [0..<121])"
  proof (rule collect_total)
    fix i assume "i \<in> set [0..<121]"
    then have i: "i < 121" by simp
    then have k: "i < length pb" by (simp add: len_pb)
    show "bind_err (item (map fst pb) i) (\<lambda>vx.
                 bind_err (item (map snd pb) i) (\<lambda>vy. Inr \<lparr>x = vx, y = vy\<rparr>))
               = Inr (bottom_entry i)"
      by (simp only: entry_of_columns [OF k] bottom_entry_def nth_pb [OF i])
  qed
  have "pmt_locations =
     bind_err (Inr pt) (\<lambda>pt.
     bind_err (Inr pb) (\<lambda>pb.
       let xs_top = map fst pt; ys_top = map snd pt;
           xs_bottom = map fst pb; ys_bottom = map snd pb
       in
     bind_err (collect (\<lambda>i. bind_err (item xs_top (127 - 1 - i)) (\<lambda>vx.
                             bind_err (item ys_top (127 - 1 - i)) (\<lambda>vy.
                               Inr \<lparr>x = vx, y = vy\<rparr>))) [0..<127]) (\<lambda>top.
     bind_err (collect (\<lambda>i. bind_err (item xs_bottom i) (\<lambda>vx.
                             bind_err (item ys_bottom i) (\<lambda>vy.
                               Inr \<lparr>x = vx, y = vy\<rparr>))) [0..<121]) (\<lambda>bottom.
       Inr (top @ bottom)))))"
    by (simp only: pmt_locations_def positions_top_eq positions_bottom_eq pt_def pb_def)
  then show ?thesis
    by (simp only: bind_err_Inr Let_def top bottom)
qed

lemma assembled_nth_top:
  "i \<le> 126 \<Longrightarrow> (map top_entry [0..<127] @ map bottom_entry [0..<121]) ! i = top_entry i"
  by (simp add: nth_append)

lemma assembled_nth_bottom:
  "i \<le> 120 \<Longrightarrow>
   (map top_entry [0..<127] @ map bottom_entry [0..<121]) ! (127 + i) = bottom_entry i"
  by (simp add: nth_append)

lemma assembled_length:
  "length (map top_entry [0..<127] @ map bottom_entry [0..<121]) = 248"
  by simp

section \<open>Separation of positions\<close>

subsection \<open>From distances and norms\<close>

lemma small_square: "\<bar>a\<bar> \<le> e \<Longrightarrow> a\<^sup>2 \<le> e\<^sup>2" for a e :: real
  by (metis abs_ge_zero abs_le_square_iff abs_of_nonneg order_trans)

lemma apart_of_dist2:
  assumes "1 \<le> dist2 p q"
  shows "apart p q"
proof (rule ccontr)
  assume "\<not> apart p q"
  then have a: "\<bar>fst p - fst q\<bar> \<le> 1 / 10 ^ 9" and b: "\<bar>snd p - snd q\<bar> \<le> 1 / 10 ^ 9"
    by (simp_all add: apart_def)
  have "(fst p - fst q)\<^sup>2 \<le> (1 / 10 ^ 9)\<^sup>2"
    by (rule small_square [OF a])
  moreover have "(snd p - snd q)\<^sup>2 \<le> (1 / 10 ^ 9)\<^sup>2"
    by (rule small_square [OF b])
  ultimately have "dist2 p q \<le> 2 * (1 / 10 ^ 9)\<^sup>2"
    by (simp add: dist2_def)
  also have "\<dots> < 1" by (simp add: power2_eq_square)
  finally show False using assms by simp
qed

lemma dist2_rotate: "dist2 (rotate_pos p t) (rotate_pos q t) = dist2 p q"
proof -
  have "dist2 (rotate_pos p t) (rotate_pos q t)
        = ((fst p - fst q) * cos t - (snd p - snd q) * sin t)\<^sup>2
          + ((fst p - fst q) * sin t + (snd p - snd q) * cos t)\<^sup>2"
    by (simp add: dist2_def rotate_pos_def algebra_simps)
  also have "\<dots> = (fst p - fst q)\<^sup>2 + (snd p - snd q)\<^sup>2"
    by (rule rotated_norm)
  finally show ?thesis by (simp add: dist2_def)
qed

lemma norm2_rotate: "norm2 (rotate_pos p t) = norm2 p"
  by (simp add: norm2_def rotate_pos_def rotated_norm)

lemma abs_le_of_norm2:
  assumes "norm2 p \<le> B\<^sup>2" "0 \<le> B"
  shows "\<bar>fst p\<bar> \<le> B" "\<bar>snd p\<bar> \<le> B"
proof -
  have "(fst p)\<^sup>2 \<le> B\<^sup>2" "(snd p)\<^sup>2 \<le> B\<^sup>2"
    using assms(1) by (simp_all add: norm2_def add_nonneg_eq_0_iff order_trans [OF _ assms(1)])
  then show "\<bar>fst p\<bar> \<le> B" "\<bar>snd p\<bar> \<le> B"
    using assms(2) by (simp_all add: abs_le_square_iff [symmetric])
qed

lemma square_diff_bound:
  fixes a b :: real
  assumes "\<bar>a - b\<bar> \<le> e" "\<bar>a\<bar> \<le> B" "\<bar>b\<bar> \<le> B"
  shows "\<bar>a\<^sup>2 - b\<^sup>2\<bar> \<le> e * (2 * B)"
proof -
  have "\<bar>a\<^sup>2 - b\<^sup>2\<bar> = \<bar>a - b\<bar> * \<bar>a + b\<bar>"
    by (simp add: power2_eq_square algebra_simps flip: abs_mult)
  also have "\<dots> \<le> e * (2 * B)"
    using assms by (intro mult_mono) (auto simp: abs_le_iff)
  finally show ?thesis .
qed

lemma apart_of_norm2:
  assumes "1 / 2 \<le> \<bar>norm2 p - norm2 q\<bar>" "norm2 p \<le> 61\<^sup>2" "norm2 q \<le> 61\<^sup>2"
  shows "apart p q"
proof (rule ccontr)
  assume "\<not> apart p q"
  then have a: "\<bar>fst p - fst q\<bar> \<le> 1 / 10 ^ 9" and b: "\<bar>snd p - snd q\<bar> \<le> 1 / 10 ^ 9"
    by (simp_all add: apart_def)
  have p: "\<bar>fst p\<bar> \<le> 61" "\<bar>snd p\<bar> \<le> 61"
    using abs_le_of_norm2 [OF assms(2)] by simp_all
  have q: "\<bar>fst q\<bar> \<le> 61" "\<bar>snd q\<bar> \<le> 61"
    using abs_le_of_norm2 [OF assms(3)] by simp_all
  have "\<bar>(fst p)\<^sup>2 - (fst q)\<^sup>2\<bar> \<le> 1 / 10 ^ 9 * (2 * 61)"
    by (rule square_diff_bound [OF a p(1) q(1)])
  moreover have "\<bar>(snd p)\<^sup>2 - (snd q)\<^sup>2\<bar> \<le> 1 / 10 ^ 9 * (2 * 61)"
    by (rule square_diff_bound [OF b p(2) q(2)])
  ultimately have "\<bar>norm2 p - norm2 q\<bar> \<le> 2 * (1 / 10 ^ 9 * (2 * 61))"
    unfolding norm2_def by linarith
  also have "\<dots> < 1 / 2" by simp
  finally show False using assms(1) by simp
qed

subsection \<open>The chord between two tubes of a ring\<close>

lemma cos_pi_18: "cos (pi / 18) \<le> 71 / 72"
proof (rule ccontr)
  define c where "c = cos (pi / 18)"
  assume "\<not> cos (pi / 18) \<le> 71 / 72"
  then have c: "71 / 72 < c" by (simp add: c_def)
  have "cos (3 * (pi / 18)) = 4 * c ^ 3 - 3 * c"
    unfolding c_def by (rule cos_treble_cos)
  moreover have "3 * (pi / 18) = pi / 6" by simp
  ultimately have "4 * c ^ 3 - 3 * c = sqrt 3 / 2"
    by (simp only: cos_30)
  then have le: "c * (4 * c\<^sup>2 - 3) \<le> 7 / 8"
    using sqrt3_le by (simp add: power3_eq_cube power2_eq_square algebra_simps)
  have "(71 / 72)\<^sup>2 < c\<^sup>2"
    using c by (intro power_strict_mono) simp_all
  then have "4 * (71 / 72)\<^sup>2 - 3 < 4 * c\<^sup>2 - 3" by simp
  moreover have "(0::real) \<le> 4 * (71 / 72)\<^sup>2 - 3" by (simp add: power2_eq_square)
  moreover have "0 < c" using c by simp
  ultimately have "71 / 72 * (4 * (71 / 72)\<^sup>2 - 3) < c * (4 * c\<^sup>2 - 3)"
    using c by (intro mult_strict_mono) simp_all
  moreover have "(7::real) / 8 < 71 / 72 * (4 * (71 / 72)\<^sup>2 - 3)"
    by (simp add: power2_eq_square)
  ultimately show False using le by simp
qed

lemma cos_step_bound:
  fixes d c :: int
  assumes "1 \<le> d" "d < c" "c \<le> 36"
  shows "cos (real_of_int d * (2 * pi) / real_of_int c) \<le> 71 / 72"
proof -
  have cpos: "0 < real_of_int c" using assms by simp
  have narrow: "cos t \<le> 71 / 72" if "pi / 18 \<le> t" "t \<le> pi" for t
  proof -
    have "0 \<le> t" using that(1) pi_ge_zero by linarith
    then have "cos t \<le> cos (pi / 18)"
      using that by (subst cos_mono_le_eq) simp_all
    then show ?thesis using cos_pi_18 by simp
  qed
  have lower: "pi / 18 \<le> real_of_int e * (2 * pi) / real_of_int c" if "1 \<le> e" for e :: int
  proof -
    have "c \<le> 36 * e" using assms(3) that by linarith
    then have "real_of_int c \<le> real_of_int (36 * e)"
      by (simp only: of_int_le_iff)
    then have "real_of_int c \<le> 36 * real_of_int e"
      by simp
    then have "pi * real_of_int c \<le> pi * (36 * real_of_int e)"
      by (intro mult_left_mono) simp_all
    then show ?thesis using cpos by (simp add: field_simps)
  qed
  show ?thesis
  proof (cases "2 * d \<le> c")
    case True
    then have "real_of_int (2 * d) \<le> real_of_int c"
      by (simp only: of_int_le_iff)
    then have "2 * real_of_int d \<le> real_of_int c"
      by simp
    then have "real_of_int d * (2 * pi) \<le> pi * real_of_int c"
      using mult_left_mono [of "2 * real_of_int d" "real_of_int c" pi] by (simp add: mult_ac)
    then have "real_of_int d * (2 * pi) / real_of_int c \<le> pi"
      using cpos by (simp add: field_simps)
    then show ?thesis
      using lower [OF assms(1)] by (intro narrow)
  next
    case False
    then have "2 * (c - d) \<le> c" by (simp add: algebra_simps)
    then have "real_of_int (2 * (c - d)) \<le> real_of_int c"
      by (simp only: of_int_le_iff)
    then have "2 * real_of_int (c - d) \<le> real_of_int c"
      by simp
    then have "real_of_int (c - d) * (2 * pi) \<le> pi * real_of_int c"
      using mult_left_mono [of "2 * real_of_int (c - d)" "real_of_int c" pi] by (simp add: mult_ac)
    then have "real_of_int (c - d) * (2 * pi) / real_of_int c \<le> pi"
      using cpos by (simp add: field_simps)
    moreover have "1 \<le> c - d" using assms(2) by simp
    ultimately have "cos (real_of_int (c - d) * (2 * pi) / real_of_int c) \<le> 71 / 72"
      using lower [of "c - d"] by (intro narrow)
    moreover have "real_of_int (c - d) * (2 * pi) / real_of_int c
                   = 2 * pi - real_of_int d * (2 * pi) / real_of_int c"
      using cpos by (simp add: field_simps)
    ultimately show ?thesis by (simp only: cos_2pi_minus)
  qed
qed

lemma polar_dist2:
  "dist2 (R * cos a, R * sin a) (R * cos b, R * sin b) = R\<^sup>2 * (2 - 2 * cos (a - b))"
proof -
  have "(R * cos a - R * cos b)\<^sup>2 + (R * sin a - R * sin b)\<^sup>2
        = R\<^sup>2 * (((cos a)\<^sup>2 + (sin a)\<^sup>2) + ((cos b)\<^sup>2 + (sin b)\<^sup>2)
                  - 2 * (cos a * cos b + sin a * sin b))"
    by (simp only: power2_eq_square algebra_simps)
  then show ?thesis
    by (simp only: dist2_def fst_conv snd_conv sin_cos_squared_add2 cos_diff) simp
qed

lemma same_ring_apart:
  fixes w1 w2 c :: int
  assumes R: "795 / 100 \<le> R" and w: "1 \<le> w1" "w1 \<le> c" "1 \<le> w2" "w2 \<le> c" "w1 \<noteq> w2"
    and c: "c \<le> 36"
  shows "1 \<le> dist2 (R * cos (real_of_int w1 * pi * 2 / real_of_int c),
                     R * sin (real_of_int w1 * pi * 2 / real_of_int c))
                    (R * cos (real_of_int w2 * pi * 2 / real_of_int c),
                     R * sin (real_of_int w2 * pi * 2 / real_of_int c))"
proof -
  define d where "d = \<bar>w1 - w2\<bar>"
  have d: "1 \<le> d" "d < c" using w by (simp_all add: d_def)
  have "real_of_int w1 * pi * 2 / real_of_int c - real_of_int w2 * pi * 2 / real_of_int c
        = real_of_int (w1 - w2) * (2 * pi) / real_of_int c"
    by (simp add: diff_divide_distrib algebra_simps)
  moreover have "cos (real_of_int (w1 - w2) * (2 * pi) / real_of_int c)
                 = cos (real_of_int d * (2 * pi) / real_of_int c)"
  proof (cases "w2 \<le> w1")
    case True
    then show ?thesis by (simp add: d_def)
  next
    case False
    then have "real_of_int d = - real_of_int (w1 - w2)" by (simp add: d_def)
    then show ?thesis by (simp only: mult_minus_left minus_divide_left [symmetric] cos_minus)
  qed
  ultimately have "cos (real_of_int w1 * pi * 2 / real_of_int c
                        - real_of_int w2 * pi * 2 / real_of_int c) \<le> 71 / 72"
    using cos_step_bound [OF d c] by simp
  then have "2 / 72 \<le> 2 - 2 * cos (real_of_int w1 * pi * 2 / real_of_int c
                        - real_of_int w2 * pi * 2 / real_of_int c)"
    by simp
  moreover have "(795 / 100)\<^sup>2 \<le> R\<^sup>2"
    using R by (intro power_mono) simp_all
  ultimately have "(795 / 100)\<^sup>2 * (2 / 72)
      \<le> R\<^sup>2 * (2 - 2 * cos (real_of_int w1 * pi * 2 / real_of_int c
                        - real_of_int w2 * pi * 2 / real_of_int c))"
    by (intro mult_mono) simp_all
  moreover have "(1::real) \<le> (795 / 100)\<^sup>2 * (2 / 72)"
    by (simp add: power2_eq_square)
  ultimately show ?thesis
    by (simp only: polar_dist2)
qed

subsection \<open>Pairs of tubes\<close>

lemma top_shape:
  assumes "1 \<le> n" "n \<le> 127"
  shows "\<exists>r w. r \<le> 6 \<and> 1 \<le> w \<and> w \<le> array_top ! r \<and>
               n = cumulative array_top r - array_top ! r + w \<and>
               get_pmt_positions_top n =
                 Inr (real r * (795 / 100) * cos (real_of_int w * pi * 2 / real_of_int (array_top ! r)),
                      real r * (795 / 100) * sin (real_of_int w * pi * 2 / real_of_int (array_top ! r)))"
proof -
  obtain r where r: "r \<le> 6" and le: "n \<le> cumulative array_top r"
    and least: "\<forall>r'<r. cumulative array_top r' < n"
    and pos: "get_pmt_positions_top n =
               Inr (real r * PMT_distance_top *
                      cos (real_of_int (n + array_top ! r - cumulative array_top r) * pi * 2
                           / real_of_int (array_top ! r)),
                    real r * PMT_distance_top *
                      sin (real_of_int (n + array_top ! r - cumulative array_top r) * pi * 2
                           / real_of_int (array_top ! r)))"
    using get_top_valid [OF assms(2)] assms(1) by force
  define w where "w = n + array_top ! r - cumulative array_top r"
  have "1 \<le> w" "w \<le> array_top ! r"
    using top_index_range [OF r assms(1) le least] by (simp_all add: w_def)
  moreover have "n = cumulative array_top r - array_top ! r + w"
    by (simp add: w_def)
  moreover have "get_pmt_positions_top n =
                 Inr (real r * (795 / 100) * cos (real_of_int w * pi * 2 / real_of_int (array_top ! r)),
                      real r * (795 / 100) * sin (real_of_int w * pi * 2 / real_of_int (array_top ! r)))"
    using pos by (simp only: w_def PMT_distance_top_def)
  ultimately show ?thesis using r by blast
qed

lemma bottom_shape:
  assumes "128 \<le> n" "n \<le> 248"
  shows "\<exists>r k. r \<le> 12 \<and> 0 \<le> k \<and> k < array_bottom ! r \<and>
               n = 128 + (cumulative array_bottom r - array_bottom ! r) + k \<and>
               get_pmt_positions_bottom n =
                 Inr (row_offset r + real_of_int k * 8, (6 - real r) * (sqrt 3 / 2 * 8))"
proof -
  obtain r where r: "r \<le> 12" and le: "n - 127 \<le> cumulative array_bottom r"
    and least: "\<forall>r'<r. cumulative array_bottom r' < n - 127"
    and pos: "get_pmt_positions_bottom n =
               Inr (row_offset r
                      + real_of_int (n + array_bottom ! r - cumulative array_bottom r - 128) * 8,
                    (6 - real r) * (sqrt 3 / 2 * 8))"
    using get_bottom_valid [OF assms(2)] assms(1) by force
  define k where "k = n + array_bottom ! r - cumulative array_bottom r - 128"
  have "0 \<le> k" "k < array_bottom ! r"
    using bottom_index_range [OF r assms(1) le least] by (simp_all add: k_def)
  moreover have "n = 128 + (cumulative array_bottom r - array_bottom ! r) + k"
    by (simp add: k_def)
  moreover have "get_pmt_positions_bottom n =
                 Inr (row_offset r + real_of_int k * 8, (6 - real r) * (sqrt 3 / 2 * 8))"
    using pos by (simp only: k_def)
  ultimately show ?thesis using r by blast
qed

lemma polar_norm2: "norm2 (R * cos a, R * sin a) = R\<^sup>2"
proof -
  have "(R * cos a)\<^sup>2 + (R * sin a)\<^sup>2 = R\<^sup>2 * ((cos a)\<^sup>2 + (sin a)\<^sup>2)"
    by (simp only: power_mult_distrib distrib_left)
  then show ?thesis
    by (simp only: norm2_def fst_conv snd_conv sin_cos_squared_add2 mult_1_right)
qed

lemma ring_norm2_bound: "r \<le> 6 \<Longrightarrow> (real r * (795 / 100))\<^sup>2 \<le> 61\<^sup>2"
  by (intro power_mono) simp_all

lemma ring_norm2_gap:
  fixes r1 r2 :: nat
  assumes "r1 < r2"
  shows "1 / 2 \<le> (real r2 * (795 / 100))\<^sup>2 - (real r1 * (795 / 100))\<^sup>2"
proof -
  have "real r1 + 1 \<le> real r2" using assms by simp
  then have "(real r1 + 1)\<^sup>2 \<le> (real r2)\<^sup>2"
    by (intro power_mono) simp_all
  then have "(real r1)\<^sup>2 + 1 \<le> (real r2)\<^sup>2"
    by (simp add: power2_eq_square algebra_simps)
  then have "(795 / 100)\<^sup>2 * ((real r1)\<^sup>2 + 1) \<le> (795 / 100)\<^sup>2 * (real r2)\<^sup>2"
    by (intro mult_left_mono) simp_all
  then show ?thesis
    by (simp add: power_mult_distrib algebra_simps power2_eq_square)
qed

lemma top_top_apart:
  assumes r1: "r1 \<le> 6" and w1: "1 \<le> w1" "w1 \<le> array_top ! r1"
    and r2: "r2 \<le> 6" and w2: "1 \<le> w2" "w2 \<le> array_top ! r2"
    and ne: "r1 \<noteq> r2 \<or> w1 \<noteq> w2"
  shows "apart
     (rotate_pos
        (real r1 * (795 / 100) * cos (real_of_int w1 * pi * 2 / real_of_int (array_top ! r1)),
         real r1 * (795 / 100) * sin (real_of_int w1 * pi * 2 / real_of_int (array_top ! r1))) t)
     (rotate_pos
        (real r2 * (795 / 100) * cos (real_of_int w2 * pi * 2 / real_of_int (array_top ! r2)),
         real r2 * (795 / 100) * sin (real_of_int w2 * pi * 2 / real_of_int (array_top ! r2))) t)"
    (is "apart (rotate_pos ?P t) (rotate_pos ?Q t)")
proof (cases "r1 = r2")
  case False
  have n1: "norm2 (rotate_pos ?P t) = (real r1 * (795 / 100))\<^sup>2"
    by (simp only: norm2_rotate polar_norm2)
  have n2: "norm2 (rotate_pos ?Q t) = (real r2 * (795 / 100))\<^sup>2"
    by (simp only: norm2_rotate polar_norm2)
  have "1 / 2 \<le> \<bar>(real r1 * (795 / 100))\<^sup>2 - (real r2 * (795 / 100))\<^sup>2\<bar>"
  proof (cases "r1 < r2")
    case True
    then show ?thesis using ring_norm2_gap [OF True] by linarith
  next
    case ge: False
    then have "r2 < r1" using False by simp
    then show ?thesis using ring_norm2_gap [of r2 r1] by linarith
  qed
  then show ?thesis
    using ring_norm2_bound [OF r1] ring_norm2_bound [OF r2]
    by (intro apart_of_norm2) (simp_all only: n1 n2)
next
  case True
  then have w: "w1 \<noteq> w2" using ne by simp
  have "r1 \<noteq> 0"
  proof
    assume "r1 = 0"
    then have "array_top ! r1 = 1" "array_top ! r2 = 1"
      using True by (simp_all add: array_top_eq)
    then show False using w1 w2 w by simp
  qed
  then have "1 \<le> real r1" by simp
  then have R: "795 / 100 \<le> real r1 * (795 / 100)" by simp
  have c: "array_top ! r1 \<le> 36" using array_top_bounds [OF r1] by simp
  have "1 \<le> dist2 ?P ?Q"
    unfolding True [symmetric]
    using w2 unfolding True [symmetric]
    by (intro same_ring_apart [OF R w1 _ _ w c])
  then show ?thesis
    by (intro apart_of_dist2) (simp only: dist2_rotate)
qed

lemma row_pitch_squared: "(sqrt 3 / 2 * 8)\<^sup>2 = (48::real)"
  by (simp add: power_mult_distrib power_divide)

lemma int_square_ge_1: "(a::int) \<noteq> 0 \<Longrightarrow> 1 \<le> (real_of_int a)\<^sup>2"
proof -
  assume "a \<noteq> 0"
  then have "1 \<le> \<bar>a\<bar>" by simp
  then have "1 \<le> \<bar>real_of_int a\<bar>" by (metis of_int_1_le_iff of_int_abs)
  then have "1\<^sup>2 \<le> \<bar>real_of_int a\<bar>\<^sup>2" by (intro power_mono) simp_all
  then show ?thesis by simp
qed

lemma bottom_bottom_apart:
  assumes ne: "r1 \<noteq> r2 \<or> k1 \<noteq> k2"
  shows "apart
     (rotate_pos (row_offset r1 + real_of_int k1 * 8, (6 - real r1) * (sqrt 3 / 2 * 8)) t)
     (rotate_pos (row_offset r2 + real_of_int k2 * 8, (6 - real r2) * (sqrt 3 / 2 * 8)) t)"
    (is "apart (rotate_pos ?P t) (rotate_pos ?Q t)")
proof -
  have "1 \<le> dist2 ?P ?Q"
  proof (cases "r1 = r2")
    case False
    then have "int r2 - int r1 \<noteq> 0" by simp
    then have "1 \<le> (real_of_int (int r2 - int r1))\<^sup>2" by (rule int_square_ge_1)
    then have "1 \<le> (real_of_int (int r2 - int r1))\<^sup>2 * 48"
      by simp
    also have "\<dots> = (real_of_int (int r2 - int r1))\<^sup>2 * (sqrt 3 / 2 * 8)\<^sup>2"
      by (simp only: row_pitch_squared)
    also have "\<dots> = (real_of_int (int r2 - int r1) * (sqrt 3 / 2 * 8))\<^sup>2"
      by (rule power_mult_distrib [symmetric])
    also have "real_of_int (int r2 - int r1) * (sqrt 3 / 2 * 8)
               = (6 - real r1) * (sqrt 3 / 2 * 8) - (6 - real r2) * (sqrt 3 / 2 * 8)"
      by (simp add: algebra_simps)
    also have "((6 - real r1) * (sqrt 3 / 2 * 8) - (6 - real r2) * (sqrt 3 / 2 * 8))\<^sup>2
               \<le> dist2 ?P ?Q"
      by (simp add: dist2_def)
    finally show ?thesis by simp
  next
    case True
    then have "k1 - k2 \<noteq> 0" using ne by simp
    then have "1 \<le> (real_of_int (k1 - k2))\<^sup>2" by (rule int_square_ge_1)
    then have "1 \<le> (real_of_int (k1 - k2))\<^sup>2 * 8\<^sup>2" by simp
    also have "\<dots> = (real_of_int (k1 - k2) * 8)\<^sup>2"
      by (rule power_mult_distrib [symmetric])
    also have "real_of_int (k1 - k2) * 8
               = row_offset r1 + real_of_int k1 * 8 - (row_offset r2 + real_of_int k2 * 8)"
      by (simp add: True algebra_simps)
    also have "(row_offset r1 + real_of_int k1 * 8 - (row_offset r2 + real_of_int k2 * 8))\<^sup>2
               \<le> dist2 ?P ?Q"
      by (simp add: dist2_def)
    finally show ?thesis .
  qed
  then show ?thesis
    by (intro apart_of_dist2) (simp only: dist2_rotate)
qed

lemma bottom_norm2:
  "norm2 (row_offset r + real_of_int k * 8, (6 - real r) * (sqrt 3 / 2 * 8))
   = 16 * real_of_int ((2 * k + 1 - array_bottom ! r)\<^sup>2 + 3 * (6 - int r)\<^sup>2)"
proof -
  have "row_offset r + real_of_int k * 8 = 4 * real_of_int (2 * k + 1 - array_bottom ! r)"
    by (simp add: row_offset_alt)
  then have "(row_offset r + real_of_int k * 8)\<^sup>2
             = 16 * (real_of_int (2 * k + 1 - array_bottom ! r))\<^sup>2"
    by (simp only: power_mult_distrib) simp
  moreover have "((6 - real r) * (sqrt 3 / 2 * 8))\<^sup>2 = (6 - real r)\<^sup>2 * (sqrt 3 / 2 * 8)\<^sup>2"
    by (rule power_mult_distrib)
  then have "((6 - real r) * (sqrt 3 / 2 * 8))\<^sup>2 = 48 * (real_of_int (6 - int r))\<^sup>2"
    by (simp only: row_pitch_squared) simp
  ultimately show ?thesis
    by (simp add: norm2_def)
qed

lemma int_square_le:
  fixes a b :: int
  assumes "\<bar>a\<bar> \<le> b"
  shows "a\<^sup>2 \<le> b\<^sup>2"
proof -
  have "\<bar>a\<bar>\<^sup>2 \<le> b\<^sup>2" using assms by (intro power_mono) simp_all
  then show ?thesis by simp
qed

lemma bottom_norm2_bound:
  assumes r: "r \<le> 12" and k: "0 \<le> k" "k < array_bottom ! r"
  shows "(2 * k + 1 - array_bottom ! r)\<^sup>2 + 3 * (6 - int r)\<^sup>2 \<le> 229"
proof -
  have "array_bottom ! r \<le> 12" using array_bottom_bounds [OF r] by simp
  then have "\<bar>2 * k + 1 - array_bottom ! r\<bar> \<le> 11" using k by linarith
  then have a: "(2 * k + 1 - array_bottom ! r)\<^sup>2 \<le> 11\<^sup>2" by (rule int_square_le)
  have "\<bar>6 - int r\<bar> \<le> 6" using r by linarith
  then have b: "(6 - int r)\<^sup>2 \<le> 6\<^sup>2" by (rule int_square_le)
  show ?thesis using a b by simp
qed

lemma gap16:
  fixes c0 :: real and a N :: int
  assumes "16 * real_of_int a \<le> c0 - 1 / 2" "c0 + 1 / 2 \<le> 16 * (real_of_int a + 1)"
  shows "1 / 2 \<le> \<bar>c0 - 16 * real_of_int N\<bar>"
proof (cases "N \<le> a")
  case True
  then have "real_of_int N \<le> real_of_int a" by (simp only: of_int_le_iff)
  then show ?thesis using assms(1) by linarith
next
  case False
  then have "a + 1 \<le> N" by simp
  then have "real_of_int (a + 1) \<le> real_of_int N" by (simp only: of_int_le_iff)
  then have "real_of_int a + 1 \<le> real_of_int N" by simp
  then have "16 * (real_of_int a + 1) \<le> 16 * real_of_int N" by simp
  then have "c0 - 16 * real_of_int N \<le> - (1 / 2)" using assms(2) by linarith
  then show ?thesis by linarith
qed

lemma ring_row_gap:
  assumes "r \<le> 6" "r \<noteq> 0"
  shows "1 / 2 \<le> \<bar>(real r * (795 / 100))\<^sup>2 - 16 * real_of_int N\<bar>"
proof -
  consider "r = 1" | "r = 2" | "r = 3" | "r = 4" | "r = 5" | "r = 6"
    using assms by linarith
  then show ?thesis
  proof cases
    case 1
    then show ?thesis by (intro gap16 [of 3]) (simp_all add: power2_eq_square)
  next
    case 2
    then show ?thesis by (intro gap16 [of 15]) (simp_all add: power2_eq_square)
  next
    case 3
    then show ?thesis by (intro gap16 [of 35]) (simp_all add: power2_eq_square)
  next
    case 4
    then show ?thesis by (intro gap16 [of 63]) (simp_all add: power2_eq_square)
  next
    case 5
    then show ?thesis by (intro gap16 [of 98]) (simp_all add: power2_eq_square)
  next
    case 6
    then show ?thesis by (intro gap16 [of 142]) (simp_all add: power2_eq_square)
  qed
qed

lemma top_bottom_apart:
  assumes r: "r \<le> 6" and q: "q \<le> 12" and k: "0 \<le> k" "k < array_bottom ! q"
    and ne: "\<not> (r = 0 \<and> q = 6 \<and> k = 5)"
  shows "apart
     (rotate_pos (real r * (795 / 100) * cos a, real r * (795 / 100) * sin a) t)
     (rotate_pos (row_offset q + real_of_int k * 8, (6 - real q) * (sqrt 3 / 2 * 8)) u)"
    (is "apart (rotate_pos ?P t) (rotate_pos ?Q u)")
proof -
  define N where "N = (2 * k + 1 - array_bottom ! q)\<^sup>2 + 3 * (6 - int q)\<^sup>2"
  have n1: "norm2 (rotate_pos ?P t) = (real r * (795 / 100))\<^sup>2"
    by (simp only: norm2_rotate polar_norm2)
  have n2: "norm2 (rotate_pos ?Q u) = 16 * real_of_int N"
    by (simp only: norm2_rotate bottom_norm2 N_def)
  have "N \<le> 229" unfolding N_def by (rule bottom_norm2_bound [OF q k])
  then have "real_of_int N \<le> 229" by (metis of_int_le_iff of_int_numeral)
  then have b2: "16 * real_of_int N \<le> 61\<^sup>2" by simp
  have gap: "1 / 2 \<le> \<bar>(real r * (795 / 100))\<^sup>2 - 16 * real_of_int N\<bar>"
  proof (cases "r = 0")
    case False
    then show ?thesis by (rule ring_row_gap [OF r])
  next
    case True
    have "N \<noteq> 0"
    proof
      assume "N = 0"
      then have "(2 * k + 1 - array_bottom ! q)\<^sup>2 + 3 * (6 - int q)\<^sup>2 = 0"
        by (simp only: N_def)
      moreover have "0 \<le> (2 * k + 1 - array_bottom ! q)\<^sup>2" "0 \<le> 3 * (6 - int q)\<^sup>2"
        by simp_all
      ultimately have "(2 * k + 1 - array_bottom ! q)\<^sup>2 = 0 \<and> 3 * (6 - int q)\<^sup>2 = 0"
        by (simp only: add_nonneg_eq_0_iff)
      then have z: "(2 * k + 1 - array_bottom ! q)\<^sup>2 = 0" "(6 - int q)\<^sup>2 = 0"
        by simp_all
      then have "q = 6" by simp
      then have "array_bottom ! q = 11" by (simp add: array_bottom_def)
      then have "k = 5" using z(1) by simp
      then show False using ne True \<open>q = 6\<close> by simp
    qed
    moreover have "0 \<le> N" by (simp add: N_def)
    ultimately have "1 \<le> N" by simp
    then have "1 \<le> real_of_int N" by simp
    then show ?thesis using True by simp
  qed
  show ?thesis
    using gap ring_norm2_bound [OF r] b2
    by (intro apart_of_norm2) (simp_all only: n1 n2)
qed

subsection \<open>Pairs of channels\<close>

lemma apart_loc:
  "apart p q \<Longrightarrow>
   \<bar>x (loc_of p) - x (loc_of q)\<bar> > 1 / 10 ^ 9 \<or> \<bar>y (loc_of p) - y (loc_of q)\<bar> > 1 / 10 ^ 9"
  by (simp add: apart_def loc_of_def)

lemma apart_sym: "apart p q \<Longrightarrow> apart q p"
  by (simp add: apart_def abs_minus_commute)

lemma top_entry_shape:
  assumes "c < 127"
  shows "\<exists>r w. r \<le> 6 \<and> 1 \<le> w \<and> w \<le> array_top ! r \<and>
               127 - int c = cumulative array_top r - array_top ! r + w \<and>
               top_entry c = loc_of (rotate_pos
                 (real r * (795 / 100) * cos (real_of_int w * pi * 2 / real_of_int (array_top ! r)),
                  real r * (795 / 100) * sin (real_of_int w * pi * 2 / real_of_int (array_top ! r)))
                 rotation_angle_top)"
proof -
  have "1 \<le> 127 - int c" "127 - int c \<le> 127" using assms by simp_all
  then obtain r w where "r \<le> 6" "1 \<le> w" "w \<le> array_top ! r"
    "127 - int c = cumulative array_top r - array_top ! r + w"
    and pos: "get_pmt_positions_top (127 - int c) =
                 Inr (real r * (795 / 100) * cos (real_of_int w * pi * 2 / real_of_int (array_top ! r)),
                      real r * (795 / 100) * sin (real_of_int w * pi * 2 / real_of_int (array_top ! r)))"
    using top_shape [of "127 - int c"] by blast
  moreover have "top_entry c = loc_of (rotate_pos
                 (real r * (795 / 100) * cos (real_of_int w * pi * 2 / real_of_int (array_top ! r)),
                  real r * (795 / 100) * sin (real_of_int w * pi * 2 / real_of_int (array_top ! r)))
                 rotation_angle_top)"
    by (simp only: top_entry_def loc_of_def pos sum.sel)
  ultimately show ?thesis by blast
qed

lemma bottom_entry_shape:
  assumes "i < 121"
  shows "\<exists>r k. r \<le> 12 \<and> 0 \<le> k \<and> k < array_bottom ! r \<and>
               128 + int i = 128 + (cumulative array_bottom r - array_bottom ! r) + k \<and>
               bottom_entry i = loc_of (rotate_pos
                 (row_offset r + real_of_int k * 8, (6 - real r) * (sqrt 3 / 2 * 8))
                 rotation_angle_bottom)"
proof -
  have "128 \<le> 128 + int i" "128 + int i \<le> 248" using assms by simp_all
  then obtain r k where "r \<le> 12" "0 \<le> k" "k < array_bottom ! r"
    "128 + int i = 128 + (cumulative array_bottom r - array_bottom ! r) + k"
    and pos: "get_pmt_positions_bottom (128 + int i) =
                 Inr (row_offset r + real_of_int k * 8, (6 - real r) * (sqrt 3 / 2 * 8))"
    using bottom_shape [of "128 + int i"] by blast
  moreover have "bottom_entry i = loc_of (rotate_pos
                 (row_offset r + real_of_int k * 8, (6 - real r) * (sqrt 3 / 2 * 8))
                 rotation_angle_bottom)"
    by (simp only: bottom_entry_def loc_of_def pos sum.sel)
  ultimately show ?thesis by blast
qed

lemma top_entries_apart:
  assumes "c1 < 127" "c2 < 127" "c1 \<noteq> c2"
  shows "\<bar>x (top_entry c1) - x (top_entry c2)\<bar> > 1 / 10 ^ 9 \<or>
         \<bar>y (top_entry c1) - y (top_entry c2)\<bar> > 1 / 10 ^ 9"
proof -
  obtain r1 w1 where 1: "r1 \<le> 6" "1 \<le> w1" "w1 \<le> array_top ! r1"
    and n1: "127 - int c1 = cumulative array_top r1 - array_top ! r1 + w1"
    and e1: "top_entry c1 = loc_of (rotate_pos
                 (real r1 * (795 / 100) * cos (real_of_int w1 * pi * 2 / real_of_int (array_top ! r1)),
                  real r1 * (795 / 100) * sin (real_of_int w1 * pi * 2 / real_of_int (array_top ! r1)))
                 rotation_angle_top)"
    using top_entry_shape [OF assms(1)] by blast
  obtain r2 w2 where 2: "r2 \<le> 6" "1 \<le> w2" "w2 \<le> array_top ! r2"
    and n2: "127 - int c2 = cumulative array_top r2 - array_top ! r2 + w2"
    and e2: "top_entry c2 = loc_of (rotate_pos
                 (real r2 * (795 / 100) * cos (real_of_int w2 * pi * 2 / real_of_int (array_top ! r2)),
                  real r2 * (795 / 100) * sin (real_of_int w2 * pi * 2 / real_of_int (array_top ! r2)))
                 rotation_angle_top)"
    using top_entry_shape [OF assms(2)] by blast
  have "r1 \<noteq> r2 \<or> w1 \<noteq> w2"
  proof (rule ccontr)
    assume "\<not> (r1 \<noteq> r2 \<or> w1 \<noteq> w2)"
    then have "127 - int c1 = 127 - int c2" using n1 n2 by simp
    then show False using assms(3) by simp
  qed
  then show ?thesis
    unfolding e1 e2 by (intro apart_loc top_top_apart 1 2)
qed

lemma bottom_entries_apart:
  assumes "i1 < 121" "i2 < 121" "i1 \<noteq> i2"
  shows "\<bar>x (bottom_entry i1) - x (bottom_entry i2)\<bar> > 1 / 10 ^ 9 \<or>
         \<bar>y (bottom_entry i1) - y (bottom_entry i2)\<bar> > 1 / 10 ^ 9"
proof -
  obtain r1 k1 where n1: "128 + int i1 = 128 + (cumulative array_bottom r1 - array_bottom ! r1) + k1"
    and e1: "bottom_entry i1 = loc_of (rotate_pos
                 (row_offset r1 + real_of_int k1 * 8, (6 - real r1) * (sqrt 3 / 2 * 8))
                 rotation_angle_bottom)"
    using bottom_entry_shape [OF assms(1)] by blast
  obtain r2 k2 where n2: "128 + int i2 = 128 + (cumulative array_bottom r2 - array_bottom ! r2) + k2"
    and e2: "bottom_entry i2 = loc_of (rotate_pos
                 (row_offset r2 + real_of_int k2 * 8, (6 - real r2) * (sqrt 3 / 2 * 8))
                 rotation_angle_bottom)"
    using bottom_entry_shape [OF assms(2)] by blast
  have "r1 \<noteq> r2 \<or> k1 \<noteq> k2"
  proof (rule ccontr)
    assume "\<not> (r1 \<noteq> r2 \<or> k1 \<noteq> k2)"
    then have "128 + int i1 = 128 + int i2" using n1 n2 by simp
    then show False using assms(3) by simp
  qed
  then show ?thesis
    unfolding e1 e2 by (intro apart_loc bottom_bottom_apart)
qed

lemma cum_bottom_6: "cumulative array_bottom 6 = 66"
  by (simp add: cumulative_def array_bottom_def)

lemma top_bottom_entries_apart:
  assumes "c < 127" "i < 121" "\<not> (c = 126 \<and> i = 60)"
  shows "apart
     (rotate_pos (projr (get_pmt_positions_top (127 - int c))) rotation_angle_top)
     (rotate_pos (projr (get_pmt_positions_bottom (128 + int i))) rotation_angle_bottom)"
proof -
  have "1 \<le> 127 - int c" "127 - int c \<le> 127" using assms(1) by simp_all
  then obtain r w where 1: "r \<le> 6" "1 \<le> w" "w \<le> array_top ! r"
    and n1: "127 - int c = cumulative array_top r - array_top ! r + w"
    and p1: "get_pmt_positions_top (127 - int c) =
                 Inr (real r * (795 / 100) * cos (real_of_int w * pi * 2 / real_of_int (array_top ! r)),
                      real r * (795 / 100) * sin (real_of_int w * pi * 2 / real_of_int (array_top ! r)))"
    using top_shape [of "127 - int c"] by blast
  have "128 \<le> 128 + int i" "128 + int i \<le> 248" using assms(2) by simp_all
  then obtain q k where 2: "q \<le> 12" "0 \<le> k" "k < array_bottom ! q"
    and n2: "128 + int i = 128 + (cumulative array_bottom q - array_bottom ! q) + k"
    and p2: "get_pmt_positions_bottom (128 + int i) =
                 Inr (row_offset q + real_of_int k * 8, (6 - real q) * (sqrt 3 / 2 * 8))"
    using bottom_shape [of "128 + int i"] by blast
  have ne: "\<not> (r = 0 \<and> q = 6 \<and> k = 5)"
  proof
    assume a: "r = 0 \<and> q = 6 \<and> k = 5"
    then have "array_top ! r = 1" by (simp add: array_top_eq)
    moreover have "cumulative array_top r = 1" using a by (simp add: cum_top_0)
    ultimately have "w = 1" "127 - int c = w" using 1 n1 by simp_all
    then have "c = 126" by simp
    moreover have "array_bottom ! q = 11" using a by (simp add: array_bottom_def)
    then have "int i = 60" using n2 a by (simp add: cum_bottom_6)
    ultimately show False using assms(3) by simp
  qed
  show ?thesis
    unfolding p1 p2 sum.sel by (rule top_bottom_apart [OF 1(1) 2 ne])
qed

lemma top_entry_126: "top_entry 126 = \<lparr>x = 0, y = 0\<rparr>"
proof -
  have "get_pmt_positions_top 1 = Inr (0, 0)"
    using get_top_of_scan [of 1 0 1] by (simp add: top_scan.simps array_top_eq)
  then show ?thesis
    by (simp add: top_entry_def rotate_pos_def)
qed

lemma bottom_entry_60: "bottom_entry 60 = \<lparr>x = 0, y = 0\<rparr>"
proof -
  have "bottom_scan 188 0 5 = Inr (6, 66)"
    by (simp add: bottom_scan.simps array_bottom_def n_pmts_top_def)
  then have "get_pmt_positions_bottom 188 = Inr (0, 0)"
    using get_bottom_of_scan [of 188 6 66] by (simp add: array_bottom_def)
  then show ?thesis
    by (simp add: bottom_entry_def rotate_pos_def)
qed

lemma entries_apart:
  fixes c1 c2 :: nat
  defines "L \<equiv> map top_entry [0..<127] @ map bottom_entry [0..<121]"
  assumes "c1 < 248" "c2 < 248" "c1 \<noteq> c2" "{c1, c2} \<noteq> {126, 187}"
  shows "\<bar>x (L ! c1) - x (L ! c2)\<bar> > 1 / 10 ^ 9 \<or> \<bar>y (L ! c1) - y (L ! c2)\<bar> > 1 / 10 ^ 9"
proof -
  have top: "L ! c = top_entry c" if "c < 127" for c
    unfolding L_def using that by (intro assembled_nth_top) simp
  have bottom: "L ! c = bottom_entry (c - 127)" if "127 \<le> c" "c < 248" for c
  proof -
    have "c - 127 \<le> 120" "127 + (c - 127) = c" using that by simp_all
    then show ?thesis
      unfolding L_def using assembled_nth_bottom [of "c - 127"] by simp
  qed
  have mixed: "\<bar>x (top_entry a) - x (bottom_entry i)\<bar> > 1 / 10 ^ 9 \<or>
               \<bar>y (top_entry a) - y (bottom_entry i)\<bar> > 1 / 10 ^ 9"
    if "a < 127" "i < 121" "\<not> (a = 126 \<and> i = 60)" for a i
    using top_bottom_entries_apart [OF that]
    by (simp add: apart_def top_entry_def bottom_entry_def)
  consider "c1 < 127" "c2 < 127" | "127 \<le> c1" "127 \<le> c2"
    | "c1 < 127" "127 \<le> c2" | "127 \<le> c1" "c2 < 127"
    by linarith
  then show ?thesis
  proof cases
    case 1
    then show ?thesis
      using top_entries_apart [OF 1 assms(4)] by (simp only: top)
  next
    case 2
    then have "c1 - 127 < 121" "c2 - 127 < 121" "c1 - 127 \<noteq> c2 - 127"
      using assms(2,3,4) by simp_all
    then show ?thesis
      using bottom_entries_apart by (simp only: bottom [OF 2(1) assms(2)] bottom [OF 2(2) assms(3)])
  next
    case 3
    have "\<not> (c1 = 126 \<and> c2 - 127 = 60)"
    proof
      assume "c1 = 126 \<and> c2 - 127 = 60"
      then have "c1 = 126" "c2 = 187" using 3 by linarith+
      then show False using assms(5) by simp
    qed
    moreover have "c2 - 127 < 121" using assms(3) 3 by simp
    ultimately show ?thesis
      using mixed [OF 3(1)] by (simp only: top [OF 3(1)] bottom [OF 3(2) assms(3)])
  next
    case 4
    have "\<not> (c2 = 126 \<and> c1 - 127 = 60)"
    proof
      assume "c2 = 126 \<and> c1 - 127 = 60"
      then have "c2 = 126" "c1 = 187" using 4 by linarith+
      then show False using assms(5) by (simp add: insert_commute)
    qed
    moreover have "c1 - 127 < 121" using assms(2) 4 by simp
    ultimately have "\<bar>x (top_entry c2) - x (bottom_entry (c1 - 127))\<bar> > 1 / 10 ^ 9 \<or>
               \<bar>y (top_entry c2) - y (bottom_entry (c1 - 127))\<bar> > 1 / 10 ^ 9"
      using mixed [OF 4(2)] by simp
    then show ?thesis
      by (simp only: top [OF 4(2)] bottom [OF 4(1) assms(2)] abs_minus_commute)
  qed
qed

section \<open>Rotation\<close>

text \<open>
  Claim C7. Rotating a position \<open>(x, y)\<close> by an angle \<open>\<theta>\<close> and then by \<open>-\<theta>\<close>, with
  \<open>rotate\<close> computing \<open>(x cos \<theta> - y sin \<theta>, x sin \<theta> + y cos \<theta>)\<close>, gives back \<open>(x, y)\<close>
  exactly over the reals.
\<close>

theorem rotate_round_trip:
  "rotate_pos (px, py) \<theta> = (px * cos \<theta> - py * sin \<theta>, px * sin \<theta> + py * cos \<theta>)
   \<and> rotate_pos (rotate_pos (px, py) \<theta>) (- \<theta>) = (px, py)"
  by (simp add: rotate_pos_def rotate_back_fst rotate_back_snd)

text \<open>
  Claim C9. Rotation preserves the squared Euclidean norm: the output \<open>(x', y')\<close> of
  \<open>rotate\<close> satisfies \<open>x'\<^sup>2 + y'\<^sup>2 = x\<^sup>2 + y\<^sup>2\<close> for every position and every angle.
\<close>

theorem rotate_preserves_norm:
  "(fst (rotate_pos (px, py) \<theta>))\<^sup>2 + (snd (rotate_pos (px, py) \<theta>))\<^sup>2 = px\<^sup>2 + py\<^sup>2"
  by (simp add: rotate_pos_def rotated_norm)

section \<open>The locators\<close>

text \<open>
  Claim C3. The ring counts are \<open>[1, 6, 12, 18, 24, 30, 36]\<close>, and for every \<open>n\<close> in
  \<open>[1, 127]\<close> the position of \<open>get_pmt_positions_top n\<close> lies at distance \<open>r * 7.95\<close>
  from the origin, where \<open>r\<close> is the smallest ring index whose cumulative count of the
  rings \<open>0..r\<close> is at least \<open>n\<close>. In particular the position of \<open>1\<close> is \<open>(0, 0)\<close>, the
  positions of \<open>2\<close> and \<open>7\<close> lie at radius \<open>7.95\<close> and that of \<open>8\<close> at radius \<open>15.9\<close>.
\<close>

theorem top_radius_rule:
  "array_top = [1, 6, 12, 18, 24, 30, 36] \<and>
   (\<forall>n. 1 \<le> n \<and> n \<le> 127 \<longrightarrow>
      (\<exists>r px py. r \<le> 6 \<and> n \<le> cumulative array_top r \<and>
                 (\<forall>r'<r. cumulative array_top r' < n) \<and>
                 get_pmt_positions_top n = Inr (px, py) \<and>
                 sqrt (px\<^sup>2 + py\<^sup>2) = real r * (795 / 100))) \<and>
   get_pmt_positions_top 1 = Inr (0, 0) \<and>
   (\<exists>px py. get_pmt_positions_top 2 = Inr (px, py) \<and> sqrt (px\<^sup>2 + py\<^sup>2) = 795 / 100) \<and>
   (\<exists>px py. get_pmt_positions_top 7 = Inr (px, py) \<and> sqrt (px\<^sup>2 + py\<^sup>2) = 795 / 100) \<and>
   (\<exists>px py. get_pmt_positions_top 8 = Inr (px, py) \<and> sqrt (px\<^sup>2 + py\<^sup>2) = 1590 / 100)"
proof (intro conjI allI impI)
  show "array_top = [1, 6, 12, 18, 24, 30, 36]"
    by (rule array_top_eq)
next
  fix n :: int
  assume n: "1 \<le> n \<and> n \<le> 127"
  obtain r where scan: "top_scan n 0 1 = Inr (r, cumulative array_top r)"
    and r: "r \<le> 6" and le: "n \<le> cumulative array_top r"
    and least: "\<forall>r'<r. cumulative array_top r' < n"
    using top_scan_start [of n] n by blast
  have "- (2 ^ 52) \<le> n" using n by simp
  then have small: "\<bar>n + array_top ! r - cumulative array_top r\<bar> \<le> 2 ^ 53"
    by (rule top_index_small [OF r le])
  show "\<exists>r px py. r \<le> 6 \<and> n \<le> cumulative array_top r \<and>
                 (\<forall>r'<r. cumulative array_top r' < n) \<and>
                 get_pmt_positions_top n = Inr (px, py) \<and>
                 sqrt (px\<^sup>2 + py\<^sup>2) = real r * (795 / 100)"
    using top_norm_of_scan [OF scan r small] r le least by blast
next
  have "top_scan 1 0 1 = Inr (0, 1)"
    by (simp add: top_scan.simps)
  then show "get_pmt_positions_top 1 = Inr (0, 0)"
    using get_top_of_scan [of 1 0 1] by (simp add: array_top_eq)
next
  have "top_scan 2 0 1 = Inr (1, 7)"
    by (simp add: top_scan.simps array_top_eq)
  then show "\<exists>px py. get_pmt_positions_top 2 = Inr (px, py) \<and> sqrt (px\<^sup>2 + py\<^sup>2) = 795 / 100"
    using top_norm_of_scan [of 2 1 7] by (simp add: array_top_eq)
next
  have "top_scan 7 0 1 = Inr (1, 7)"
    by (simp add: top_scan.simps array_top_eq)
  then show "\<exists>px py. get_pmt_positions_top 7 = Inr (px, py) \<and> sqrt (px\<^sup>2 + py\<^sup>2) = 795 / 100"
    using top_norm_of_scan [of 7 1 7] by (simp add: array_top_eq)
next
  have "top_scan 8 0 1 = Inr (2, 19)"
    by (simp add: top_scan.simps array_top_eq)
  then show "\<exists>px py. get_pmt_positions_top 8 = Inr (px, py) \<and> sqrt (px\<^sup>2 + py\<^sup>2) = 1590 / 100"
    using top_norm_of_scan [of 8 2 19] by (simp add: array_top_eq)
qed

text \<open>The rule at \<open>n = 20\<close>, a tube of ring \<open>3\<close>.\<close>

theorem top_radius_rule_witness:
  "(1::int) \<le> 20 \<and> (20::int) \<le> 127 \<and>
   (\<exists>px py. get_pmt_positions_top 20 = Inr (px, py) \<and>
            sqrt (px\<^sup>2 + py\<^sup>2) = 3 * (795 / 100))"
proof -
  obtain r px py where le: "20 \<le> cumulative array_top r"
    and least: "\<forall>r'<r. cumulative array_top r' < 20"
    and pos: "get_pmt_positions_top 20 = Inr (px, py)"
    and norm: "sqrt (px\<^sup>2 + py\<^sup>2) = real r * (795 / 100)"
    using top_radius_rule [THEN conjunct2, THEN conjunct1, THEN spec, of 20] by auto
  have "20 \<le> cumulative array_top 3"
    by (simp add: cumulative_def array_top_eq)
  moreover have "\<forall>r'<3. cumulative array_top r' < 20"
  proof (intro allI impI)
    fix r' :: nat assume "r' < 3"
    then have "cumulative array_top r' \<le> cumulative array_top 2"
      by (intro cumulative_mono) (simp_all add: array_top_eq)
    moreover have "cumulative array_top 2 = 19"
      by (simp add: cumulative_def array_top_eq)
    ultimately show "cumulative array_top r' < 20" by simp
  qed
  ultimately have "r = 3"
    using le least by (intro least_unique [of 20 array_top r 3])
  then show ?thesis using pos norm by simp
qed

text \<open>
  Claim C4 states that \<open>get_pmt_positions_bottom n\<close> is
  \<open>(row_offset[r] + within * 8.0, (0.5*(13-1) - r) * (sqrt(3)/2) * 8.0)\<close> with \<open>within\<close>
  the 1-based index of \<open>n\<close> in its row. At \<open>n = 128\<close>, the first tube of row \<open>0\<close>, that
  formula gives \<open>x = -8\<close>, where the code gives \<open>x = -16\<close>.
\<close>

theorem bottom_formula_counterexample:
  "get_pmt_positions_bottom 128 = Inr (- 16, 6 * (sqrt 3 / 2) * 8) \<and>
   spec_locate_bottom 128 = (- 8, 6 * (sqrt 3 / 2) * 8) \<and>
   get_pmt_positions_bottom 128 \<noteq> Inr (spec_locate_bottom 128)"
proof -
  have a: "get_pmt_positions_bottom 128 = Inr (- 16, 6 * (sqrt 3 / 2) * 8)"
    using get_bottom_underflow [of 128] by simp
  have b: "spec_locate_bottom 128 = (- 8, 6 * (sqrt 3 / 2) * 8)"
    by (simp add: spec_locate_bottom_def row_offset_def array_bottom_def)
  show ?thesis
    by (simp add: a b)
qed

text \<open>
  Claim C4, amended. For every \<open>n\<close> in \<open>[128, 248]\<close>, with \<open>r\<close> the row and \<open>k\<close> the
  1-based index within the row that the running-total scan over the row counts finds
  for \<open>n - 127\<close>, the code reaches row \<open>r\<close> and returns
  \<open>(row_offset[r] + (k - 1) * 8.0, (0.5*(13-1) - r) * (sqrt(3)/2) * 8.0)\<close>: the index
  that multiplies the pitch counts from zero.
\<close>

theorem bottom_position_formula:
  assumes "128 \<le> n" and "n \<le> 248"
  shows "\<exists>r k. spec_scan array_bottom (n - 127) = (r, k) \<and>
               r \<le> 12 \<and> 1 \<le> k \<and> k \<le> array_bottom ! r \<and>
               bottom_row n = Inr r \<and>
               get_pmt_positions_bottom n =
                 Inr (row_offset r + real_of_int (k - 1) * 8,
                      (1 / 2 * (13 - 1) - real r) * (sqrt 3 / 2) * 8)"
proof -
  obtain r where r: "r \<le> 12" and le: "n - 127 \<le> cumulative array_bottom r"
    and least: "\<forall>r'<r. cumulative array_bottom r' < n - 127"
    and row: "bottom_row n = Inr r"
    and pos: "get_pmt_positions_bottom n =
               Inr (row_offset r
                      + real_of_int (n + array_bottom ! r - cumulative array_bottom r - 128) * 8,
                    (6 - real r) * (sqrt 3 / 2 * 8))"
    using get_bottom_valid [OF assms(2)] assms(1) by force
  define k where "k = n - 127 - (cumulative array_bottom r - array_bottom ! r)"
  have "r < length array_bottom" using r by (simp add: length_array_bottom)
  then have scan: "spec_scan array_bottom (n - 127) = (r, k)"
    unfolding k_def using le least by (rule spec_scan_least)
  have k: "1 \<le> k" "k \<le> array_bottom ! r"
    using bottom_index_range [OF r assms(1) le least] by (simp_all add: k_def)
  have "n + array_bottom ! r - cumulative array_bottom r - 128 = k - 1"
    by (simp add: k_def)
  then have "get_pmt_positions_bottom n =
                 Inr (row_offset r + real_of_int (k - 1) * 8,
                      (1 / 2 * (13 - 1) - real r) * (sqrt 3 / 2) * 8)"
    using pos by simp
  then show ?thesis
    using scan r k row by blast
qed

text \<open>The formula at \<open>n = 133\<close>, the first tube of row \<open>1\<close>.\<close>

theorem bottom_position_formula_witness:
  "(128::int) \<le> 133 \<and> (133::int) \<le> 248 \<and>
   spec_scan array_bottom (133 - 127) = (1, 1) \<and> bottom_row 133 = Inr 1 \<and>
   get_pmt_positions_bottom 133 = Inr (- 28, 5 * (sqrt 3 / 2) * 8)"
proof -
  have s: "spec_scan array_bottom (133 - 127) = (1, 1)"
    by (simp add: array_bottom_def)
  obtain r k where "spec_scan array_bottom (133 - 127) = (r, k)"
    and row: "bottom_row 133 = Inr r"
    and pos: "get_pmt_positions_bottom 133 =
                 Inr (row_offset r + real_of_int (k - 1) * 8,
                      (1 / 2 * (13 - 1) - real r) * (sqrt 3 / 2) * 8)"
    using bottom_position_formula [of 133] by auto
  then have rk: "r = 1" "k = 1" using s by simp_all
  have "array_bottom ! 1 = 8" by (simp add: array_bottom_def)
  then have "row_offset 1 = - 28" by (simp add: row_offset_def)
  then show ?thesis
    using s row pos by (simp add: rk)
qed

text \<open>
  Claim C5 states that each locator fails with an \<open>OutOfRange\<close> error on every input
  outside its domain, in particular at \<open>0\<close> and \<open>128\<close> for the top locator and at \<open>127\<close>
  and \<open>249\<close> for the bottom locator. The code has no range check: at \<open>0\<close> and at \<open>127\<close>
  the locators return coordinates.
\<close>

theorem out_of_range_counterexample:
  "get_pmt_positions_top 0 = Inr (0, 0) \<and>
   get_pmt_positions_bottom 127 = Inr (- 24, 6 * (sqrt 3 / 2 * 8)) \<and>
   \<not> isl (get_pmt_positions_top 0) \<and> \<not> isl (get_pmt_positions_bottom 127)"
proof -
  have "get_pmt_positions_top 0 = Inr (0, 0)"
    by (rule get_top_underflow) simp_all
  moreover have "get_pmt_positions_bottom 127 = Inr (- 24, 6 * (sqrt 3 / 2 * 8))"
    using get_bottom_underflow [of 127] by simp
  ultimately show ?thesis by simp
qed

text \<open>
  Claim C5, amended. Above their domains the locators fail, with the \<open>IndexError\<close> of the
  count table read past its end: \<open>get_pmt_positions_top n\<close> for every \<open>n > 127\<close> and
  \<open>get_pmt_positions_bottom n\<close> for every \<open>n > 248\<close>. Below their domains, on the
  integers down to \<open>-2 ^ 52\<close> (which float64 represents exactly), they return
  coordinates: \<open>get_pmt_positions_top n = (0, 0)\<close> for every \<open>n\<close> with
  \<open>-2 ^ 52 \<le> n \<le> 0\<close>, and
  \<open>get_pmt_positions_bottom n = (-16 + (n - 128) * 8, 6 * (sqrt 3 / 2) * 8)\<close> for every
  \<open>n\<close> with \<open>-2 ^ 52 \<le> n \<le> 127\<close>.
\<close>

theorem out_of_range_behaviour:
  "(\<forall>n. 127 < n \<longrightarrow> get_pmt_positions_top n = Inl IndexError) \<and>
   (\<forall>n. 248 < n \<longrightarrow> get_pmt_positions_bottom n = Inl IndexError) \<and>
   (\<forall>n. - (2 ^ 52) \<le> n \<and> n \<le> 0 \<longrightarrow> get_pmt_positions_top n = Inr (0, 0)) \<and>
   (\<forall>n. - (2 ^ 52) \<le> n \<and> n \<le> 127 \<longrightarrow>
      get_pmt_positions_bottom n = Inr (- 16 + real_of_int (n - 128) * 8, 6 * (sqrt 3 / 2 * 8)))"
proof (intro conjI allI impI)
  fix n :: int
  assume "127 < n"
  then show "get_pmt_positions_top n = Inl IndexError"
    by (rule get_top_overflow)
next
  fix n :: int
  assume "248 < n"
  then show "get_pmt_positions_bottom n = Inl IndexError"
    by (rule get_bottom_overflow)
next
  fix n :: int
  assume "- (2 ^ 52) \<le> n \<and> n \<le> 0"
  then show "get_pmt_positions_top n = Inr (0, 0)"
    by (intro get_top_underflow) simp_all
next
  fix n :: int
  assume "- (2 ^ 52) \<le> n \<and> n \<le> 127"
  then show "get_pmt_positions_bottom n
             = Inr (- 16 + real_of_int (n - 128) * 8, 6 * (sqrt 3 / 2 * 8))"
    by (intro get_bottom_underflow) simp_all
qed

text \<open>The four cases at \<open>128\<close>, \<open>249\<close>, \<open>-3\<close> and \<open>126\<close>.\<close>

theorem out_of_range_behaviour_witness:
  "(127::int) < 128 \<and> get_pmt_positions_top 128 = Inl IndexError \<and>
   (248::int) < 249 \<and> get_pmt_positions_bottom 249 = Inl IndexError \<and>
   - (2 ^ 52) \<le> (- 3::int) \<and> (- 3::int) \<le> 0 \<and> get_pmt_positions_top (- 3) = Inr (0, 0) \<and>
   - (2 ^ 52) \<le> (126::int) \<and> (126::int) \<le> 127 \<and>
   get_pmt_positions_bottom 126 = Inr (- 32, 6 * (sqrt 3 / 2 * 8))"
  using out_of_range_behaviour [THEN conjunct1, THEN spec, of 128]
    out_of_range_behaviour [THEN conjunct2, THEN conjunct1, THEN spec, of 249]
    out_of_range_behaviour [THEN conjunct2, THEN conjunct2, THEN conjunct1, THEN spec, of "- 3"]
    out_of_range_behaviour [THEN conjunct2, THEN conjunct2, THEN conjunct2, THEN spec, of 126]
  by simp

text \<open>
  Claim C6. On the valid domains both loops end normally: for every \<open>n\<close> in \<open>[1, 127]\<close>
  the scan of \<open>get_pmt_positions_top\<close> stops at a ring index at most \<open>6\<close> and the function
  returns a pair of reals, each of magnitude at most \<open>47.7\<close>; for every \<open>n\<close> in
  \<open>[128, 248]\<close> the scan of \<open>get_pmt_positions_bottom\<close> stops at a row index at most \<open>12\<close>
  and the function returns a pair of reals of magnitude at most \<open>44\<close> and \<open>42\<close>. (Both
  scans are total functions: reading \<open>array\<close> past its end ends them with \<open>IndexError\<close>.)
\<close>

theorem scans_terminate:
  "(\<forall>n. 1 \<le> n \<and> n \<le> 127 \<longrightarrow>
      (\<exists>r px py. top_ring n = Inr r \<and> r \<le> 6 \<and> get_pmt_positions_top n = Inr (px, py) \<and>
                 \<bar>px\<bar> \<le> 477 / 10 \<and> \<bar>py\<bar> \<le> 477 / 10)) \<and>
   (\<forall>n. 128 \<le> n \<and> n \<le> 248 \<longrightarrow>
      (\<exists>r px py. bottom_row n = Inr r \<and> r \<le> 12 \<and> get_pmt_positions_bottom n = Inr (px, py) \<and>
                 \<bar>px\<bar> \<le> 44 \<and> \<bar>py\<bar> \<le> 42))"
proof (intro conjI allI impI)
  fix n :: int
  assume n: "1 \<le> n \<and> n \<le> 127"
  obtain r where r: "r \<le> 6" and ring: "top_ring n = Inr r"
    and pos: "get_pmt_positions_top n =
               Inr (real r * PMT_distance_top *
                      cos (real_of_int (n + array_top ! r - cumulative array_top r) * pi * 2
                           / real_of_int (array_top ! r)),
                    real r * PMT_distance_top *
                      sin (real_of_int (n + array_top ! r - cumulative array_top r) * pi * 2
                           / real_of_int (array_top ! r)))"
    using get_top_valid [of n] n by force
  define R where "R = real r * PMT_distance_top"
  have R: "0 \<le> R" "R \<le> 477 / 10"
    using r by (simp_all add: R_def PMT_distance_top_def)
  have bound: "\<bar>R * c\<bar> \<le> 477 / 10" if "\<bar>c\<bar> \<le> 1" for c :: real
  proof -
    have "\<bar>R * c\<bar> = R * \<bar>c\<bar>"
      using R(1) by (simp only: abs_mult abs_of_nonneg)
    also have "\<dots> \<le> R * 1"
      using R(1) that by (rule mult_left_mono [rotated])
    finally show ?thesis using R(2) by simp
  qed
  show "\<exists>r px py. top_ring n = Inr r \<and> r \<le> 6 \<and> get_pmt_positions_top n = Inr (px, py) \<and>
                 \<bar>px\<bar> \<le> 477 / 10 \<and> \<bar>py\<bar> \<le> 477 / 10"
    using ring r pos bound [OF abs_cos_le_one] bound [OF abs_sin_le_one]
    unfolding R_def by blast
next
  fix n :: int
  assume n: "128 \<le> n \<and> n \<le> 248"
  obtain r where r: "r \<le> 12" and le: "n - 127 \<le> cumulative array_bottom r"
    and least: "\<forall>r'<r. cumulative array_bottom r' < n - 127"
    and row: "bottom_row n = Inr r"
    and pos: "get_pmt_positions_bottom n =
               Inr (row_offset r
                      + real_of_int (n + array_bottom ! r - cumulative array_bottom r - 128) * 8,
                    (6 - real r) * (sqrt 3 / 2 * 8))"
    using get_bottom_valid [of n] n by force
  define k where "k = n + array_bottom ! r - cumulative array_bottom r - 128"
  have k: "0 \<le> k" "k < array_bottom ! r"
    using bottom_index_range [OF r _ le least] n by (simp_all add: k_def)
  have c: "array_bottom ! r \<le> 12"
    using array_bottom_bounds [OF r] by simp
  have "row_offset r + real_of_int k * 8 = 4 * real_of_int (2 * k + 1 - array_bottom ! r)"
    by (simp add: row_offset_alt)
  moreover have "\<bar>2 * k + 1 - array_bottom ! r\<bar> \<le> 11"
    using k c by linarith
  then have "\<bar>real_of_int (2 * k + 1 - array_bottom ! r)\<bar> \<le> 11"
    by (metis of_int_abs of_int_le_iff of_int_numeral)
  ultimately have xb: "\<bar>row_offset r + real_of_int k * 8\<bar> \<le> 44"
    by simp
  have "\<bar>6 - real r\<bar> \<le> 6" using r by simp
  then have "\<bar>(6 - real r) * (sqrt 3 / 2 * 8)\<bar> \<le> 6 * (sqrt 3 / 2 * 8)"
    by (simp add: abs_mult)
  also have "\<dots> \<le> 42" using sqrt3_le by simp
  finally have yb: "\<bar>(6 - real r) * (sqrt 3 / 2 * 8)\<bar> \<le> 42" .
  show "\<exists>r px py. bottom_row n = Inr r \<and> r \<le> 12 \<and> get_pmt_positions_bottom n = Inr (px, py) \<and>
                 \<bar>px\<bar> \<le> 44 \<and> \<bar>py\<bar> \<le> 42"
    using row r pos xb yb unfolding k_def by blast
qed

text \<open>The two halves at \<open>n = 64\<close> and \<open>n = 200\<close>.\<close>

theorem scans_terminate_witness:
  "(1::int) \<le> 64 \<and> (64::int) \<le> 127 \<and>
   (\<exists>r px py. top_ring 64 = Inr r \<and> r \<le> 6 \<and> get_pmt_positions_top 64 = Inr (px, py) \<and>
              \<bar>px\<bar> \<le> 477 / 10 \<and> \<bar>py\<bar> \<le> 477 / 10) \<and>
   (128::int) \<le> 200 \<and> (200::int) \<le> 248 \<and>
   (\<exists>r px py. bottom_row 200 = Inr r \<and> r \<le> 12 \<and> get_pmt_positions_bottom 200 = Inr (px, py) \<and>
              \<bar>px\<bar> \<le> 44 \<and> \<bar>py\<bar> \<le> 42)"
  using scans_terminate [THEN conjunct1, THEN spec, of 64]
    scans_terminate [THEN conjunct2, THEN spec, of 200]
  by simp

text \<open>
  Claim C10. The input \<open>0\<close>, below the domain, is accepted by the top locator: the
  loop guard \<open>0 > 1\<close> fails at once, so the scan stops in ring \<open>0\<close>, and
  \<open>get_pmt_positions_top 0\<close> returns without raising; its value is exactly \<open>(0, 0)\<close>, the
  position of the valid input \<open>1\<close>.
\<close>

theorem top_accepts_zero:
  "top_scan 0 0 1 = Inr (0, 1) \<and> top_ring 0 = Inr 0 \<and>
   get_pmt_positions_top 0 = Inr (0, 0) \<and>
   get_pmt_positions_top 0 = get_pmt_positions_top 1"
proof -
  have s: "top_scan 0 0 1 = Inr (0, 1)"
    by (simp add: top_scan.simps)
  then have z: "get_pmt_positions_top 0 = Inr (0, 0)"
    by (simp add: get_pmt_positions_top_def item_array_top_0 bind_err_def item_def
        array_top_eq radius_def float_of_int_exact)
  have r: "top_ring 0 = Inr 0"
    using s by (simp add: top_ring_def item_array_top_0 bind_err_def)
  have "top_scan 1 0 1 = Inr (0, 1)"
    by (simp add: top_scan.simps)
  then have "get_pmt_positions_top 1 = Inr (0, 0)"
    by (simp add: get_pmt_positions_top_def item_array_top_0 bind_err_def item_def
        array_top_eq radius_def float_of_int_exact)
  with s z r show ?thesis by simp
qed

section \<open>Rows and assembly\<close>

text \<open>
  Claim C8. For every row \<open>r\<close> in \<open>[0, 12]\<close>, the x-coordinates that
  \<open>get_pmt_positions_bottom\<close> produces for the numbers of \<open>[128, 248]\<close> falling in row \<open>r\<close>
  are exactly \<open>row_offset[r] + 8 k\<close> for \<open>k = 0, \<dots>, row_count[r] - 1\<close>, with
  \<open>row_offset[r] = -0.5 * (row_count[r] - 1) * 8\<close>: they run in steps of \<open>8\<close> up to
  \<open>+0.5 * (row_count[r] - 1) * 8\<close>, and the set is symmetric about \<open>x = 0\<close>.
\<close>

theorem row_centering:
  assumes "r \<le> 12"
  shows "{px. \<exists>n py. 128 \<le> n \<and> n \<le> 248 \<and> bottom_row n = Inr r \<and>
                     get_pmt_positions_bottom n = Inr (px, py)}
         = (\<lambda>k. row_offset r + real k * 8) ` {k. k < nat (array_bottom ! r)} \<and>
         row_offset r + real (nat (array_bottom ! r) - 1) * 8 = - row_offset r \<and>
         (\<forall>v \<in> (\<lambda>k. row_offset r + real k * 8) ` {k. k < nat (array_bottom ! r)}.
            - v \<in> (\<lambda>k. row_offset r + real k * 8) ` {k. k < nat (array_bottom ! r)})"
proof (intro conjI)
  show "{px. \<exists>n py. 128 \<le> n \<and> n \<le> 248 \<and> bottom_row n = Inr r \<and>
                     get_pmt_positions_bottom n = Inr (px, py)}
         = (\<lambda>k. row_offset r + real k * 8) ` {k. k < nat (array_bottom ! r)}"
  proof (intro set_eqI iffI)
    fix px
    assume "px \<in> {px. \<exists>n py. 128 \<le> n \<and> n \<le> 248 \<and> bottom_row n = Inr r \<and>
                     get_pmt_positions_bottom n = Inr (px, py)}"
    then obtain n py where "128 \<le> n" "n \<le> 248" "bottom_row n = Inr r"
      "get_pmt_positions_bottom n = Inr (px, py)" by blast
    then obtain k where "k < nat (array_bottom ! r)" "px = row_offset r + real k * 8"
      using bottom_row_position by blast
    then show "px \<in> (\<lambda>k. row_offset r + real k * 8) ` {k. k < nat (array_bottom ! r)}"
      by blast
  next
    fix px
    assume "px \<in> (\<lambda>k. row_offset r + real k * 8) ` {k. k < nat (array_bottom ! r)}"
    then obtain k where k: "k < nat (array_bottom ! r)" and px: "px = row_offset r + real k * 8"
      by blast
    have k': "0 \<le> int k" "int k < array_bottom ! r" using k by simp_all
    have "\<exists>n py. 128 \<le> n \<and> n \<le> 248 \<and> bottom_row n = Inr r \<and>
                get_pmt_positions_bottom n = Inr (px, py)"
      using bottom_row_member [OF assms k'] px by simp
    then show "px \<in> {px. \<exists>n py. 128 \<le> n \<and> n \<le> 248 \<and> bottom_row n = Inr r \<and>
                     get_pmt_positions_bottom n = Inr (px, py)}"
      by simp
  qed
next
  have "1 \<le> array_bottom ! r" using array_bottom_bounds [OF assms] by simp
  then have "real (nat (array_bottom ! r) - 1) = real_of_int (array_bottom ! r) - 1"
    by (simp add: of_nat_diff)
  then show "row_offset r + real (nat (array_bottom ! r) - 1) * 8 = - row_offset r"
    by (simp add: row_offset_alt)
next
  show "\<forall>v \<in> (\<lambda>k. row_offset r + real k * 8) ` {k. k < nat (array_bottom ! r)}.
            - v \<in> (\<lambda>k. row_offset r + real k * 8) ` {k. k < nat (array_bottom ! r)}"
  proof
    fix v
    assume "v \<in> (\<lambda>k. row_offset r + real k * 8) ` {k. k < nat (array_bottom ! r)}"
    then obtain k where k: "k < nat (array_bottom ! r)" and v: "v = row_offset r + real k * 8"
      by blast
    define j where "j = nat (array_bottom ! r) - 1 - k"
    have j: "j < nat (array_bottom ! r)" using k by (simp add: j_def)
    have "real j = real_of_int (array_bottom ! r) - 1 - real k"
      using k by (simp add: j_def of_nat_diff)
    then have "- v = row_offset r + real j * 8"
      by (simp add: v row_offset_alt)
    then show "- v \<in> (\<lambda>k. row_offset r + real k * 8) ` {k. k < nat (array_bottom ! r)}"
      using j by blast
  qed
qed

text \<open>Row \<open>1\<close>, of eight tubes.\<close>

theorem row_centering_witness:
  "(1::nat) \<le> 12 \<and>
   {px. \<exists>n py. 128 \<le> n \<and> n \<le> 248 \<and> bottom_row n = Inr 1 \<and>
                get_pmt_positions_bottom n = Inr (px, py)}
     = {- 28, - 20, - 12, - 4, 4, 12, 20, 28}"
proof -
  have "array_bottom ! 1 = 8" by (simp add: array_bottom_def)
  moreover have "{k. k < (8::nat)} = {0, 1, 2, 3, 4, 5, 6, 7}" by auto
  ultimately show ?thesis
    using row_centering [of 1, THEN conjunct1]
    by (simp add: row_offset_def)
qed

text \<open>
  Claim C2. The assembled list has 248 entries; for every \<open>i\<close> with \<open>0 \<le> i \<le> 126\<close> its
  entry \<open>i\<close> is the position of \<open>get_pmt_positions_top (127 - i)\<close> rotated by
  \<open>rotation_angle_top\<close>, and for every \<open>i\<close> with \<open>0 \<le> i \<le> 120\<close> its entry \<open>127 + i\<close> is
  the position of \<open>get_pmt_positions_bottom (128 + i)\<close> rotated by
  \<open>rotation_angle_bottom\<close>.
\<close>

theorem assembly_mapping:
  "\<exists>L. pmt_locations = Inr L \<and> length L = 248 \<and>
     (\<forall>i\<le>126. \<exists>p. get_pmt_positions_top (127 - int i) = Inr p \<and>
        L ! i = \<lparr>x = fst (rotate_pos p rotation_angle_top),
                 y = snd (rotate_pos p rotation_angle_top)\<rparr>) \<and>
     (\<forall>i\<le>120. \<exists>p. get_pmt_positions_bottom (128 + int i) = Inr p \<and>
        L ! (127 + i) = \<lparr>x = fst (rotate_pos p rotation_angle_bottom),
                         y = snd (rotate_pos p rotation_angle_bottom)\<rparr>)"
proof -
  let ?L = "map top_entry [0..<127] @ map bottom_entry [0..<121]"
  have top: "\<exists>p. get_pmt_positions_top (127 - int i) = Inr p \<and>
        ?L ! i = \<lparr>x = fst (rotate_pos p rotation_angle_top),
                  y = snd (rotate_pos p rotation_angle_top)\<rparr>" if "i \<le> 126" for i
  proof -
    have "get_pmt_positions_top (127 - int i)
          = Inr (projr (get_pmt_positions_top (127 - int i)))"
      using that by (intro get_top_total) simp_all
    then show ?thesis
      using assembled_nth_top [OF that] by (simp only: top_entry_def) blast
  qed
  have bottom: "\<exists>p. get_pmt_positions_bottom (128 + int i) = Inr p \<and>
        ?L ! (127 + i) = \<lparr>x = fst (rotate_pos p rotation_angle_bottom),
                         y = snd (rotate_pos p rotation_angle_bottom)\<rparr>" if "i \<le> 120" for i
  proof -
    have "get_pmt_positions_bottom (128 + int i)
          = Inr (projr (get_pmt_positions_bottom (128 + int i)))"
      using that by (intro get_bottom_total) simp_all
    then show ?thesis
      using assembled_nth_bottom [OF that] by (simp only: bottom_entry_def) blast
  qed
  show ?thesis
    using pmt_locations_eq assembled_length top bottom by blast
qed

text \<open>
  The four corner cases of the mapping: channels \<open>0\<close>, \<open>126\<close>, \<open>127\<close> and \<open>247\<close> hold
  the rotated positions of the numbers \<open>127\<close>, \<open>1\<close>, \<open>128\<close> and \<open>248\<close>.
\<close>

theorem assembly_mapping_witness:
  "\<exists>L. pmt_locations = Inr L \<and> length L = 248 \<and>
     (\<exists>p. get_pmt_positions_top 127 = Inr p \<and>
        L ! 0 = \<lparr>x = fst (rotate_pos p rotation_angle_top),
                 y = snd (rotate_pos p rotation_angle_top)\<rparr>) \<and>
     (\<exists>p. get_pmt_positions_top 1 = Inr p \<and>
        L ! 126 = \<lparr>x = fst (rotate_pos p rotation_angle_top),
                   y = snd (rotate_pos p rotation_angle_top)\<rparr>) \<and>
     (\<exists>p. get_pmt_positions_bottom 128 = Inr p \<and>
        L ! 127 = \<lparr>x = fst (rotate_pos p rotation_angle_bottom),
                   y = snd (rotate_pos p rotation_angle_bottom)\<rparr>) \<and>
     (\<exists>p. get_pmt_positions_bottom 248 = Inr p \<and>
        L ! 247 = \<lparr>x = fst (rotate_pos p rotation_angle_bottom),
                   y = snd (rotate_pos p rotation_angle_bottom)\<rparr>)"
proof -
  obtain L where L: "pmt_locations = Inr L" "length L = 248"
    and top: "\<forall>i\<le>126. \<exists>p. get_pmt_positions_top (127 - int i) = Inr p \<and>
        L ! i = \<lparr>x = fst (rotate_pos p rotation_angle_top),
                 y = snd (rotate_pos p rotation_angle_top)\<rparr>"
    and bottom: "\<forall>i\<le>120. \<exists>p. get_pmt_positions_bottom (128 + int i) = Inr p \<and>
        L ! (127 + i) = \<lparr>x = fst (rotate_pos p rotation_angle_bottom),
                         y = snd (rotate_pos p rotation_angle_bottom)\<rparr>"
    using assembly_mapping by blast
  have "(0::nat) \<le> 126" "(126::nat) \<le> 126" "(0::nat) \<le> 120" "(120::nat) \<le> 120"
    by simp_all
  then show ?thesis
    using L top [rule_format, of 0] top [rule_format, of 126]
      bottom [rule_format, of 0] bottom [rule_format, of 120]
    by (intro exI [of _ L]) simp
qed

section \<open>Distinct positions\<close>

text \<open>
  Claim C1 states that no two distinct channels of \<open>[0, 247]\<close> have the same position
  (they differ by more than \<open>1e-9\<close> in a coordinate). Channel \<open>126\<close>, the centre tube of
  the top array (number \<open>1\<close>), and channel \<open>187\<close>, the centre tube of the bottom array
  (number \<open>188\<close>, the sixth tube of row \<open>6\<close>), both sit at \<open>(0, 0)\<close>.
\<close>

theorem channel_positions_counterexample:
  "(126::nat) \<noteq> 187 \<and> \<not> isl pmt_locations \<and>
   projr pmt_locations ! 126 = \<lparr>x = 0, y = 0\<rparr> \<and>
   projr pmt_locations ! 187 = \<lparr>x = 0, y = 0\<rparr> \<and>
   \<not> (\<bar>x (projr pmt_locations ! 126) - x (projr pmt_locations ! 187)\<bar> > 1 / 10 ^ 9 \<or>
      \<bar>y (projr pmt_locations ! 126) - y (projr pmt_locations ! 187)\<bar> > 1 / 10 ^ 9)"
proof -
  have a: "projr pmt_locations ! 126 = \<lparr>x = 0, y = 0\<rparr>"
    using assembled_nth_top [of 126] by (simp only: pmt_locations_eq sum.sel top_entry_126)
  have b: "projr pmt_locations ! 187 = \<lparr>x = 0, y = 0\<rparr>"
    using assembled_nth_bottom [of 60] by (simp only: pmt_locations_eq sum.sel bottom_entry_60) simp
  have "\<not> isl pmt_locations"
    by (simp only: pmt_locations_eq sum.disc simp_thms)
  then show ?thesis
    by (simp add: a b)
qed

text \<open>
  Claim C1, amended. The assembled list has exactly 248 entries, and any two distinct
  channels of \<open>[0, 247]\<close> other than the pair \<open>126\<close>, \<open>187\<close> have positions that differ
  by more than \<open>1e-9\<close> in at least one coordinate; channels \<open>126\<close> and \<open>187\<close>, the
  centres of the two arrays, both hold \<open>(0, 0)\<close>.
\<close>

theorem channel_positions_apart:
  "\<exists>L. pmt_locations = Inr L \<and> length L = 248 \<and>
     (\<forall>c1<248. \<forall>c2<248. c1 \<noteq> c2 \<and> {c1, c2} \<noteq> {126, 187} \<longrightarrow>
        \<bar>x (L ! c1) - x (L ! c2)\<bar> > 1 / 10 ^ 9 \<or> \<bar>y (L ! c1) - y (L ! c2)\<bar> > 1 / 10 ^ 9) \<and>
     L ! 126 = \<lparr>x = 0, y = 0\<rparr> \<and> L ! 187 = \<lparr>x = 0, y = 0\<rparr>"
proof -
  let ?L = "map top_entry [0..<127] @ map bottom_entry [0..<121]"
  have "?L ! 126 = \<lparr>x = 0, y = 0\<rparr>"
    using assembled_nth_top [of 126] by (simp only: top_entry_126)
  moreover have "?L ! 187 = \<lparr>x = 0, y = 0\<rparr>"
    using assembled_nth_bottom [of 60] by (simp only: bottom_entry_60) simp
  moreover have "\<forall>c1<248. \<forall>c2<248. c1 \<noteq> c2 \<and> {c1, c2} \<noteq> {126, 187} \<longrightarrow>
        \<bar>x (?L ! c1) - x (?L ! c2)\<bar> > 1 / 10 ^ 9 \<or> \<bar>y (?L ! c1) - y (?L ! c2)\<bar> > 1 / 10 ^ 9"
    using entries_apart by blast
  ultimately show ?thesis
    using pmt_locations_eq assembled_length by blast
qed

text \<open>The first and the last channel.\<close>

theorem channel_positions_apart_witness:
  "\<exists>L. pmt_locations = Inr L \<and> length L = 248 \<and> (0::nat) < 248 \<and> (247::nat) < 248 \<and>
     (\<bar>x (L ! 0) - x (L ! 247)\<bar> > 1 / 10 ^ 9 \<or> \<bar>y (L ! 0) - y (L ! 247)\<bar> > 1 / 10 ^ 9)"
proof -
  obtain L where L: "pmt_locations = Inr L" "length L = 248"
    and ap: "\<forall>c1<248. \<forall>c2<248. c1 \<noteq> c2 \<and> {c1, c2} \<noteq> {126, 187} \<longrightarrow>
        \<bar>x (L ! c1) - x (L ! c2)\<bar> > 1 / 10 ^ 9 \<or> \<bar>y (L ! c1) - y (L ! c2)\<bar> > 1 / 10 ^ 9"
    using channel_positions_apart by blast
  have "{0::nat, 247} \<noteq> {126, 187}" by (simp add: doubleton_eq_iff)
  then have "\<bar>x (L ! 0) - x (L ! 247)\<bar> > 1 / 10 ^ 9 \<or> \<bar>y (L ! 0) - y (L ! 247)\<bar> > 1 / 10 ^ 9"
    using ap [rule_format, of 0 247] by simp
  then show ?thesis using L by (intro exI [of _ L]) simp
qed

end
